theory Spec2Isabelle
  imports Main "HOL-Library.Sublist" "HOL-Library.Multiset"
begin

section \<open>JavaScript values and string primitives\<close>

text \<open>
  A string is the sequence of bytes of its UTF-8 text. The characters the program
  inspects (comma, newline, double quote, slash, the ASCII letters of a mime type) are
  single bytes that never occur inside a multi-byte sequence, so \<open>includes\<close>,
  \<open>indexOf\<close>, \<open>split\<close> and \<open>replace\<close> on them agree with the
  byte-level functions below. An array element is either a string or \<open>undefined\<close>.
\<close>

datatype jsval = JUndefined | JStr string

datatype error = TypeError

abbreviation dquote :: char where "dquote \<equiv> CHR 0x22"
abbreviation newline :: char where "newline \<equiv> CHR 0x0A"
abbreviation comma :: char where "comma \<equiv> CHR '',''"

text \<open>\<open>s.indexOf(sub)\<close>: the first position at which \<open>sub\<close> occurs, or \<open>-1\<close>.\<close>

fun str_indexOf_from :: "nat \<Rightarrow> string \<Rightarrow> string \<Rightarrow> int" where
  "str_indexOf_from i [] sub = (if sub = [] then int i else - 1)"
| "str_indexOf_from i (c # cs) sub =
     (if prefix sub (c # cs) then int i else str_indexOf_from (Suc i) cs sub)"

definition str_indexOf :: "string \<Rightarrow> string \<Rightarrow> int" where
  "str_indexOf s sub = str_indexOf_from 0 s sub"

text \<open>\<open>s.split(c)\<close> for a one-character separator; the empty string gives \<open>[""]\<close>.\<close>

fun split_chr :: "char \<Rightarrow> string \<Rightarrow> string list" where
  "split_chr c [] = [[]]"
| "split_chr c (x # xs) =
     (if x = c then [] # split_chr c xs
      else (case split_chr c xs of w # ws \<Rightarrow> (x # w) # ws | [] \<Rightarrow> [[x]]))"

text \<open>\<open>Array.prototype.join\<close>: \<open>undefined\<close> elements are rendered as the empty string.\<close>

fun elem_text :: "jsval \<Rightarrow> string" where
  "elem_text JUndefined = []"
| "elem_text (JStr s) = s"

fun js_join :: "string \<Rightarrow> string list \<Rightarrow> string" where
  "js_join sep [] = []"
| "js_join sep [x] = x"
| "js_join sep (x # y # ys) = x @ sep @ js_join sep (y # ys)"

text \<open>\<open>toUpperCase\<close> on one ASCII character: the letters \<open>a\<close> to \<open>z\<close> are mapped.\<close>

definition toUpperCase_chr :: "char \<Rightarrow> char" where
  "toUpperCase_chr c =
     (case map_of (zip ''abcdefghijklmnopqrstuvwxyz'' ''ABCDEFGHIJKLMNOPQRSTUVWXYZ'') c of
        None \<Rightarrow> c
      | Some u \<Rightarrow> u)"

text \<open>\<open>xs.indexOf(v)\<close> on an array of strings, by strict equality.\<close>

fun indexOf_from :: "nat \<Rightarrow> string list \<Rightarrow> jsval \<Rightarrow> int" where
  "indexOf_from i [] v = - 1"
| "indexOf_from i (x # xs) v = (if JStr x = v then int i else indexOf_from (Suc i) xs v)"

definition indexOf :: "string list \<Rightarrow> jsval \<Rightarrow> int" where
  "indexOf xs v = indexOf_from 0 xs v"

text \<open>
  \<open>xs.splice(start, 1)\<close>: a negative \<open>start\<close> counts from the end and is clamped at
  \<open>0\<close>, a large one is clamped at the length; at most one element is deleted.
\<close>

definition splice1 :: "int \<Rightarrow> 'a list \<Rightarrow> 'a list" where
  "splice1 start xs =
     (let len = int (length xs);
          actualStart = (if start < 0 then max (len + start) 0 else min start len);
          deleteCount = min (max 1 0) (len - actualStart)
      in take (nat actualStart) xs @ drop (nat (actualStart + deleteCount)) xs)"

text \<open>
  \<open>btoa(unescape(encodeURIComponent(s)))\<close>: the base64 text of the UTF-8 bytes of
  \<open>s\<close>. On byte strings \<open>unescape \<circ> encodeURIComponent\<close> is the identity.
\<close>

definition b64_alphabet :: string where
  "b64_alphabet = ''ABCDEFGHIJKLMNOPQRSTUVWXYZabcdefghijklmnopqrstuvwxyz0123456789+/''"

definition b64_digit :: "nat \<Rightarrow> char" where
  "b64_digit n = b64_alphabet ! (n mod 64)"

fun btoa :: "string \<Rightarrow> string" where
  "btoa [] = []"
| "btoa [a] =
     (let n = of_char a * 65536
      in [b64_digit (n div 262144), b64_digit (n div 4096), CHR ''='', CHR ''=''])"
| "btoa [a, b] =
     (let n = of_char a * 65536 + of_char b * 256
      in [b64_digit (n div 262144), b64_digit (n div 4096), b64_digit (n div 64), CHR ''=''])"
| "btoa (a # b # c # rest) =
     (let n = of_char a * 65536 + of_char b * 256 + of_char c
      in [b64_digit (n div 262144), b64_digit (n div 4096), b64_digit (n div 64), b64_digit n]
         @ btoa rest)"

section \<open>utils.js\<close>

text \<open>
  \<open>capitalizeFLetter\<close>: \<open>word[0]\<close> of the empty string is \<open>undefined\<close>, and calling
  \<open>toUpperCase\<close> on it throws. On a first character outside ASCII, \<open>toUpperCase\<close>
  follows the case tables of the JavaScript engine and may give several characters; the
  tables are not part of the program, and the parameter \<open>up\<close> stands for them:
  \<open>up word\<close> is \<open>word[0].toUpperCase() + word.slice(1)\<close> for such a word.
\<close>

definition capitalizeFLetter :: "(string \<Rightarrow> string) \<Rightarrow> string \<Rightarrow> error + string" where
  "capitalizeFLetter up word =
     (case word of
        [] \<Rightarrow> Inl TypeError
      | c # cs \<Rightarrow> if (of_char c :: nat) < 128 then Inr (toUpperCase_chr c # cs) else Inr (up word))"

definition escapeDoubleQuotes :: "string \<Rightarrow> string" where
  "escapeDoubleQuotes str = concat (map (\<lambda>c. if c = dquote then [dquote, dquote] else [c]) str)"

text \<open>The callback of \<open>array.map\<close> in \<open>arrayToCSVLine\<close>.\<close>

fun csvValue :: "jsval \<Rightarrow> jsval" where
  "csvValue (JStr v) =
     (if comma \<in> set v \<or> newline \<in> set v
      then JStr ([dquote] @ escapeDoubleQuotes v @ [dquote]) else JStr v)"
| "csvValue JUndefined = JUndefined"

definition arrayToCSVLine :: "jsval list \<Rightarrow> string" where
  "arrayToCSVLine array = js_join '','' (map elem_text (map csvValue array))"

section \<open>index.html: the data of a traversal\<close>

text \<open>
  One item of the \<open>files\<close> array that \<open>callApi\<close> returns. \<open>owners\<close> is the empty
  list when the field is absent or empty (\<open>file.owners[0].displayName\<close> throws in both
  cases); \<open>description\<close> and \<open>fileExtension\<close> are optional.
\<close>

record owner =
  displayName :: string
  emailAddress :: jsval

record entry =
  fileId :: string
  fileName :: string
  mimeType :: string
  owners :: "owner list"
  description :: "string option"
  fileExtension :: "string option"

text \<open>The drive: a node is an item together with the listing that a query for its
  children returns.\<close>

datatype node = Node entry "node list"

text \<open>The values of the form fields read by \<open>makeCsv\<close>.\<close>

record form =
  drive_id :: string
  drive_name :: string
  root_category :: string
  metadata_profile_id :: string
  owner_id :: string
  metadata_fields :: string

text \<open>What is attached to the promise of a \<open>getDriveFiles\<close> call: the callback of
  \<open>makeCsv\<close> that starts the interval timer (it keeps the form values that \<open>makeCsv\<close>
  has read), or the callback of the recursive call that takes a token out of \<open>runs\<close>.\<close>

datatype continuation = StartPolling form | Deregister

text \<open>
  A call of \<open>getDriveFiles\<close> that waits for its listing: the seven parameters, the
  listing the request will deliver, the callback attached to its promise, and (for the
  statements only) the position of the visited folder in the tree, as the child indices
  from the drive root.
\<close>

record visit =
  driveId :: string
  driveName :: string
  folderName :: string
  categoryName :: string
  metadataProfileId :: string
  ownerId :: string
  folderPath :: string
  response :: "node list"
  on_resolve :: continuation
  vpath :: "nat list"

text \<open>
  The page: the globals \<open>runs\<close>, \<open>files\<close> and \<open>inter\<close> (undefined, or the id of the
  interval timer set last), the interval timers that are active (each with its id and
  the form values its callback keeps), the number of timer ids handed out, the calls in
  flight, the calls whose promise is fulfilled and whose callback is still queued
  (\<open>settled\<close>), and what the user has seen. \<open>completed\<close> and \<open>rejected\<close> keep, for
  the statements only, the calls whose callback has run and the calls that threw.
  Nothing in the program empties \<open>runs\<close> or \<open>files\<close>: they live as long as the page.
\<close>

record state =
  runs :: "string list"
  files :: "jsval list list"
  inter :: "nat option"
  timers :: "(nat \<times> form) list"
  timer_ids :: nat
  inflight :: "visit list"
  settled :: "visit list"
  completed :: "visit list"
  rejected :: "visit list"
  alerts :: "string list"
  downloads :: "(string \<times> string) list"

section \<open>index.html: getDriveFiles\<close>

definition folder_mime :: string where
  "folder_mime = ''application/vnd.google-apps.folder''"

definition is_media :: "string \<Rightarrow> bool" where
  "is_media m \<longleftrightarrow>
     str_indexOf m ''image/'' > - 1 \<or> str_indexOf m ''audio/'' > - 1 \<or> str_indexOf m ''video/'' > - 1"

text \<open>\<open>capitalizeFLetter(mimeType.split('/')[0])\<close>\<close>

definition media_type_of :: "(string \<Rightarrow> string) \<Rightarrow> string \<Rightarrow> error + string" where
  "media_type_of up m =
     (case split_chr (CHR ''/'') m of [] \<Rightarrow> Inl TypeError | w # ws \<Rightarrow> capitalizeFLetter up w)"

text \<open>The array pushed onto \<open>files\<close> (lines 50 to 62).\<close>

definition media_record :: "visit \<Rightarrow> entry \<Rightarrow> owner \<Rightarrow> string \<Rightarrow> jsval list" where
  "media_record v file ow media_type =
     [JStr (fileName file),
      JStr (''By '' @ displayName ow @ '' in '' @ folderName v @ ''. '' @ [newline]
            @ (case description file of None \<Rightarrow> [] | Some d \<Rightarrow> d)),
      JStr [],
      JStr (''https://drive.google.com/uc?export=download&id='' @ fileId file),
      JStr (fileId file),
      JStr media_type,
      JStr (categoryName v @ ''>'' @ driveName v @ '' '' @ folderPath v),
      emailAddress ow,
      JStr (ownerId v),
      JStr (metadataProfileId v)]"

text \<open>
  The recursive call of line 36 passes six arguments: the new folder path arrives in the
  parameter \<open>ownerId\<close>, and \<open>folderPath\<close> takes its default, the empty string.
\<close>

definition spawn :: "visit \<Rightarrow> nat \<Rightarrow> entry \<Rightarrow> node list \<Rightarrow> string \<Rightarrow> visit" where
  "spawn v k file children new_folder_path =
     \<lparr>driveId = fileId file, driveName = driveName v, folderName = fileName file,
      categoryName = categoryName v, metadataProfileId = metadataProfileId v,
      ownerId = new_folder_path, folderPath = [],
      response = children, on_resolve = Deregister, vpath = vpath v @ [k]\<rparr>"

text \<open>The callback of \<open>localfiles.forEach\<close> on the \<open>k\<close>-th item. A throw leaves the
  globals as they are.\<close>

definition process_file ::
  "(string \<Rightarrow> string) \<Rightarrow> visit \<Rightarrow> nat \<Rightarrow> node \<Rightarrow> state \<Rightarrow> error + state" where
  "process_file up v k n s =
     (case n of Node file children \<Rightarrow>
        if mimeType file = folder_mime then
          (let new_folder_path = folderPath v @ '' - '' @ fileName file;
               key = btoa new_folder_path
           in Inr (s\<lparr>runs := runs s @ [key],
                     inflight := inflight s @ [spawn v k file children new_folder_path]\<rparr>))
        else if is_media (mimeType file) then
          (case media_type_of up (mimeType file) of
             Inl e \<Rightarrow> Inl e
           | Inr media_type \<Rightarrow>
               (case owners file of
                  [] \<Rightarrow> Inl TypeError
                | ow # _ \<Rightarrow> Inr (s\<lparr>files := files s @ [media_record v file ow media_type]\<rparr>)))
        else Inr s)"

text \<open>\<open>localfiles.forEach\<close>, from item \<open>k\<close> on: the state reached, and the error that
  stopped the loop, if any. What was pushed before a throw stays pushed.\<close>

fun forEach_files ::
  "(string \<Rightarrow> string) \<Rightarrow> visit \<Rightarrow> nat \<Rightarrow> node list \<Rightarrow> state \<Rightarrow> state \<times> error option" where
  "forEach_files up v k [] s = (s, None)"
| "forEach_files up v k (n # ns) s =
     (case process_file up v k n s of
        Inl e \<Rightarrow> (s, Some e)
      | Inr s' \<Rightarrow> forEach_files up v (Suc k) ns s')"

text \<open>
  The body of \<open>getDriveFiles\<close> from the moment \<open>callApi\<close> has returned the listing
  \<open>response v\<close>: the function ends after the loop and returns nothing, so that its
  promise is fulfilled with \<open>undefined\<close>, or rejected with the error thrown.
\<close>

definition getDriveFiles ::
  "(string \<Rightarrow> string) \<Rightarrow> visit \<Rightarrow> state \<Rightarrow> state \<times> error option" where
  "getDriveFiles up v s = forEach_files up v 0 (response v) s"

text \<open>The callback of lines 36 to 41, called with the value \<open>res\<close> of the promise.\<close>

definition deregister :: "jsval \<Rightarrow> state \<Rightarrow> state" where
  "deregister res s = s\<lparr>runs := splice1 (indexOf (runs s) res) (runs s)\<rparr>"

section \<open>index.html: makeCsv\<close>

definition headerLine :: string where
  "headerLine =
     ''*title,description,tags,url,referenceId,contentType,category,creatorId,ownerId,metadataProfileId''"

text \<open>The byte-order mark \<open>U+FEFF\<close> in UTF-8.\<close>

definition bom :: string where
  "bom = [CHR 0xEF, CHR 0xBB, CHR 0xBF]"

text \<open>Lines 86 to 100: the text handed to \<open>downloadCSV\<close>. The second binding of
  \<open>csvData\<close> is the assignment of line 92.\<close>

definition csv_line :: "nat \<Rightarrow> jsval list \<Rightarrow> string" where
  "csv_line fieldsCount f = arrayToCSVLine f @ replicate fieldsCount comma @ [newline]"

definition csv_document :: "string \<Rightarrow> jsval list list \<Rightarrow> string" where
  "csv_document metadataFieldNames fs =
     (let fieldsCount = length (split_chr comma metadataFieldNames);
          csvData = bom;
          fields = map (\<lambda>f. ''metadataField_'' @ f) (split_chr comma metadataFieldNames);
          csvData = headerLine @ '','' @ js_join '','' fields @ [newline]
      in csvData @ concat (map (csv_line fieldsCount) fs))"

text \<open>\<open>clearInterval(inter)\<close>: the timer with that id, if it is active, is removed.\<close>

definition clearInterval :: "nat option \<Rightarrow> (nat \<times> form) list \<Rightarrow> (nat \<times> form) list" where
  "clearInterval i ts = filter (\<lambda>t. Some (fst t) \<noteq> i) ts"

text \<open>The callback of \<open>setInterval\<close> (lines 79 to 103), with the form values \<open>fm\<close> that
  it keeps from its call of \<open>makeCsv\<close>.\<close>

definition interval_callback :: "form \<Rightarrow> state \<Rightarrow> state" where
  "interval_callback fm s =
     (if length (runs s) = 0 then
        (let s1 = s\<lparr>timers := clearInterval (inter s) (timers s)\<rparr>
         in if length (files s1) = 0
            then s1\<lparr>alerts := alerts s1 @ [''could not list files'']\<rparr>
            else s1\<lparr>downloads := downloads s1
                       @ [(csv_document (metadata_fields fm) (files s1), ''bulk_upload.csv'')]\<rparr>)
      else s)"

section \<open>The event loop\<close>

text \<open>
  The program runs on one thread; what is not determined is the order in which the
  listings arrive. An event is one turn of the loop:
  \<^item> \<open>Deliver i\<close>: the listing of the \<open>i\<close>-th call in flight arrives and the body of
    \<open>getDriveFiles\<close> runs to its end (fulfilling the promise) or to a throw (rejecting it);
  \<^item> \<open>Resolve j\<close>: the callback of the \<open>j\<close>-th fulfilled promise runs; the value of the
    promise is \<open>undefined\<close>, since \<open>getDriveFiles\<close> has no \<open>return\<close> of its own (the
    \<open>return\<close> of line 64 belongs to the callback of \<open>forEach\<close>);
  \<^item> \<open>Poll k\<close>: the \<open>k\<close>-th active interval timer fires; timers run only when no
    promise callback is queued.
\<close>

datatype event = Deliver nat | Resolve nat | Poll nat

definition remove_nth :: "nat \<Rightarrow> 'a list \<Rightarrow> 'a list" where
  "remove_nth i xs = take i xs @ drop (Suc i) xs"

definition deliver :: "(string \<Rightarrow> string) \<Rightarrow> nat \<Rightarrow> state \<Rightarrow> state option" where
  "deliver up i s =
     (if i < length (inflight s) then
        (let v = inflight s ! i;
             s1 = s\<lparr>inflight := remove_nth i (inflight s)\<rparr>
         in case getDriveFiles up v s1 of
              (s2, None) \<Rightarrow> Some (s2\<lparr>settled := settled s2 @ [v]\<rparr>)
            | (s2, Some e) \<Rightarrow> Some (s2\<lparr>rejected := rejected s2 @ [v]\<rparr>))
      else None)"

definition resolve :: "nat \<Rightarrow> state \<Rightarrow> state option" where
  "resolve j s =
     (if j < length (settled s) then
        (let v = settled s ! j;
             s1 = s\<lparr>settled := remove_nth j (settled s)\<rparr>;
             s2 = (case on_resolve v of
                     StartPolling fm \<Rightarrow>
                       s1\<lparr>inter := Some (Suc (timer_ids s1)),
                          timers := timers s1 @ [(Suc (timer_ids s1), fm)],
                          timer_ids := Suc (timer_ids s1)\<rparr>
                   | Deregister \<Rightarrow> deregister JUndefined s1)
         in Some (s2\<lparr>completed := completed s2 @ [v]\<rparr>))
      else None)"

definition poll :: "nat \<Rightarrow> state \<Rightarrow> state option" where
  "poll k s =
     (if k < length (timers s) \<and> settled s = []
      then Some (interval_callback (snd (timers s ! k)) s) else None)"

fun step :: "(string \<Rightarrow> string) \<Rightarrow> event \<Rightarrow> state \<Rightarrow> state option" where
  "step up (Deliver i) s = deliver up i s"
| "step up (Resolve j) s = resolve j s"
| "step up (Poll k) s = poll k s"

fun run :: "(string \<Rightarrow> string) \<Rightarrow> event list \<Rightarrow> state \<Rightarrow> state option" where
  "run up [] s = Some s"
| "run up (e # es) s = (case step up e s of None \<Rightarrow> None | Some s' \<Rightarrow> run up es s')"

text \<open>The page as it is loaded: line 21, line 22 and line 68.\<close>

definition page_load :: state where
  "page_load =
     \<lparr>runs = [], files = [], inter = None, timers = [], timer_ids = 0, inflight = [],
      settled = [], completed = [], rejected = [], alerts = [], downloads = []\<rparr>"

text \<open>
  \<open>makeCsv\<close>, a click on the button: the form values are read and the root call is
  sent, on the listing \<open>tree\<close> of the drive root. The globals stay as the page has
  them.
\<close>

definition root_visit :: "form \<Rightarrow> node list \<Rightarrow> visit" where
  "root_visit fm tree =
     \<lparr>driveId = drive_id fm, driveName = drive_name fm, folderName = [],
      categoryName = root_category fm @ ''>site>channels'',
      metadataProfileId = metadata_profile_id fm, ownerId = owner_id fm, folderPath = [],
      response = tree, on_resolve = StartPolling fm, vpath = []\<rparr>"

definition makeCsv :: "form \<Rightarrow> node list \<Rightarrow> state \<Rightarrow> state" where
  "makeCsv fm tree s = s\<lparr>inflight := inflight s @ [root_visit fm tree]\<rparr>"

text \<open>A session on the page: clicks on the button and turns of the event loop, in any
  order.\<close>

datatype action = Click form "node list" | Turn event

fun act :: "(string \<Rightarrow> string) \<Rightarrow> action \<Rightarrow> state \<Rightarrow> state option" where
  "act up (Click fm tree) s = Some (makeCsv fm tree s)"
| "act up (Turn e) s = step up e s"

fun session :: "(string \<Rightarrow> string) \<Rightarrow> action list \<Rightarrow> state \<Rightarrow> state option" where
  "session up [] s = Some s"
| "session up (a # as) s = (case act up a s of None \<Rightarrow> None | Some s' \<Rightarrow> session up as s')"

text \<open>The positions of the folders whose visit has resolved and whose callback has run.\<close>

definition visited :: "state \<Rightarrow> nat list list" where
  "visited s = map vpath (completed s)"

section \<open>drive.html: makeCsv on pasted lines\<close>

text \<open>
  The callback of \<open>lines.forEach\<close> (lines 25 to 47): the row that a pasted line adds, if
  any. A line that does not split into three fields is skipped.
\<close>

definition paste_row ::
  "(string \<Rightarrow> string) \<Rightarrow> form \<Rightarrow> nat \<Rightarrow> string \<Rightarrow> error + jsval list option" where
  "paste_row up fm fieldsCount line =
     (let lineData = split_chr comma line
      in if length lineData \<noteq> 3 then Inr None
         else if is_media (lineData ! 1) then
           (case media_type_of up (lineData ! 1) of
              Inl e \<Rightarrow> Inl e
            | Inr media_type \<Rightarrow>
                Inr (Some ([JStr (lineData ! 0), JStr [], JStr [],
                            JStr (''https://drive.google.com/uc?export=download&id='' @ lineData ! 2),
                            JStr (lineData ! 2), JStr media_type,
                            JStr (root_category fm @ ''>site>channels>'' @ drive_name fm),
                            JStr (owner_id fm), JStr (owner_id fm),
                            JStr (metadata_profile_id fm)]
                           @ replicate fieldsCount (JStr []))))
         else Inr None)"

fun paste_lines ::
  "(string \<Rightarrow> string) \<Rightarrow> form \<Rightarrow> nat \<Rightarrow> string list \<Rightarrow> string \<Rightarrow> error + string" where
  "paste_lines up fm fieldsCount [] csvData = Inr csvData"
| "paste_lines up fm fieldsCount (line # ls) csvData =
     (case paste_row up fm fieldsCount line of
        Inl e \<Rightarrow> Inl e
      | Inr None \<Rightarrow> paste_lines up fm fieldsCount ls csvData
      | Inr (Some item) \<Rightarrow>
          paste_lines up fm fieldsCount ls (csvData @ arrayToCSVLine item @ [newline]))"

text \<open>\<open>makeCsv\<close> of drive.html on the pasted text \<open>data\<close>: the text handed to
  \<open>downloadCSV\<close>, or the error that ends the function before.\<close>

definition makeCsv_drive :: "(string \<Rightarrow> string) \<Rightarrow> form \<Rightarrow> string \<Rightarrow> error + string" where
  "makeCsv_drive up fm data =
     (let fieldsCount = length (split_chr comma (metadata_fields fm));
          csvData = bom;
          fields = map (\<lambda>f. ''metadataField_'' @ f) (split_chr comma (metadata_fields fm));
          csvData = headerLine @ '','' @ js_join '','' fields @ [newline]
      in paste_lines up fm fieldsCount (split_chr newline data) csvData)"

section \<open>The folder tree\<close>

text \<open>
  The listing of the folder at a position: the position \<open>[]\<close> is the drive root, and
  \<open>p @ [k]\<close> is the \<open>k\<close>-th item of the listing at \<open>p\<close>, when that item is a
  folder. The folder nodes of the tree are the positions with a listing.
\<close>

fun listing_at :: "node list \<Rightarrow> nat list \<Rightarrow> node list option" where
  "listing_at cs [] = Some cs"
| "listing_at cs (k # p) =
     (if k < length cs then
        (case cs ! k of Node file children \<Rightarrow>
           if mimeType file = folder_mime then listing_at children p else None)
      else None)"

text \<open>The name of the folder at a position; \<open>makeCsv\<close> passes the empty string as the
  folder name of the drive root.\<close>

fun folder_name_at :: "node list \<Rightarrow> nat list \<Rightarrow> string" where
  "folder_name_at cs [] = []"
| "folder_name_at cs [k] =
     (if k < length cs then (case cs ! k of Node file children \<Rightarrow> fileName file) else [])"
| "folder_name_at cs (k # j # p) =
     (if k < length cs then
        (case cs ! k of Node file children \<Rightarrow> folder_name_at children (j # p))
      else [])"

text \<open>The item of a node, and the items for which the loop creates a record: the mime
  type is not the folder type and has \<open>image/\<close>, \<open>audio/\<close> or \<open>video/\<close> at some
  position.\<close>

fun node_entry :: "node \<Rightarrow> entry" where
  "node_entry (Node file children) = file"

definition qualifies :: "node \<Rightarrow> bool" where
  "qualifies n \<longleftrightarrow>
     mimeType (node_entry n) \<noteq> folder_mime \<and>
     (sublist ''image/'' (mimeType (node_entry n)) \<or> sublist ''audio/'' (mimeType (node_entry n))
      \<or> sublist ''video/'' (mimeType (node_entry n)))"

fun node_children :: "node \<Rightarrow> node list" where
  "node_children (Node file children) = children"

text \<open>The items on which the callback throws: a record is to be created, and the item has
  no owner, or its mime type begins with a slash, so that the word handed to
  \<open>capitalizeFLetter\<close> is empty.\<close>

definition throws :: "node \<Rightarrow> bool" where
  "throws n \<longleftrightarrow>
     qualifies n \<and> (owners (node_entry n) = [] \<or> prefix ''/'' (mimeType (node_entry n)))"

text \<open>The record of an item listed to the call \<open>v\<close>, with the first owner and the
  capitalized first segment of the mime type, when the item has both.\<close>

definition record_for :: "(string \<Rightarrow> string) \<Rightarrow> visit \<Rightarrow> node \<Rightarrow> jsval list option" where
  "record_for up v n =
     (case owners (node_entry n) of
        [] \<Rightarrow> None
      | ow # rest \<Rightarrow>
          (case media_type_of up (mimeType (node_entry n)) of
             Inl e \<Rightarrow> None
           | Inr media_type \<Rightarrow> Some (media_record v (node_entry n) ow media_type)))"

text \<open>The call \<open>v\<close> visits the folder item \<open>n\<close>: it queries the children of that item, gets
  their listing, and has the name of the item as its folder name.\<close>

definition visits_folder :: "visit \<Rightarrow> node \<Rightarrow> bool" where
  "visits_folder v n \<longleftrightarrow>
     mimeType (node_entry n) = folder_mime \<and> driveId v = fileId (node_entry n) \<and>
     folderName v = fileName (node_entry n) \<and> response v = node_children n"

section \<open>Reading a CSV text\<close>

text \<open>
  What a reader of the document sees: a double quote opens or closes a quoted section
  (a doubled quote inside one closes and reopens it), and a separator counts only
  outside quoted sections. \<open>top_split sep q cur text\<close> cuts \<open>text\<close> at the top-level
  occurrences of \<open>sep\<close>; \<open>q\<close> tells whether a quoted section is open and \<open>cur\<close> is
  the piece read so far.
\<close>

fun top_split :: "char \<Rightarrow> bool \<Rightarrow> string \<Rightarrow> string \<Rightarrow> string list" where
  "top_split sep q cur [] = [cur]"
| "top_split sep q cur (c # cs) =
     (if c = dquote then top_split sep (\<not> q) (cur @ [c]) cs
      else if c = sep \<and> \<not> q then cur # top_split sep False [] cs
      else top_split sep q (cur @ [c]) cs)"

text \<open>The lines of a document: a newline at the very end does not open another line.\<close>

definition csv_lines :: "string \<Rightarrow> string list" where
  "csv_lines doc =
     (let ps = top_split newline False [] doc in if last ps = [] then butlast ps else ps)"

definition csv_fields :: "string \<Rightarrow> string list" where
  "csv_fields line = top_split comma False [] line"

text \<open>Is a quoted section open after \<open>text\<close> has been read?\<close>

fun qstate :: "bool \<Rightarrow> string \<Rightarrow> bool" where
  "qstate q [] = q"
| "qstate q (c # cs) = qstate (if c = dquote then \<not> q else q) cs"

text \<open>The number of top-level occurrences of \<open>sep\<close>.\<close>

fun top_count :: "char \<Rightarrow> bool \<Rightarrow> string \<Rightarrow> nat" where
  "top_count sep q [] = 0"
| "top_count sep q (c # cs) =
     (if c = dquote then top_count sep (\<not> q) cs
      else if c = sep \<and> \<not> q then Suc (top_count sep False cs)
      else top_count sep q cs)"

text \<open>A value whose text a reader takes for one field: a string with a double quote
  also has a comma or a newline, so that \<open>arrayToCSVLine\<close> wraps it.\<close>

fun quote_safe :: "jsval \<Rightarrow> bool" where
  "quote_safe JUndefined = True"
| "quote_safe (JStr v) = (dquote \<in> set v \<longrightarrow> comma \<in> set v \<or> newline \<in> set v)"

section \<open>Sample drives\<close>

definition sample_owner :: "string \<Rightarrow> owner" where
  "sample_owner n = \<lparr>displayName = n, emailAddress = JStr (n @ ''@example.org'')\<rparr>"

definition folder_entry :: "string \<Rightarrow> string \<Rightarrow> entry" where
  "folder_entry i n =
     \<lparr>fileId = i, fileName = n, mimeType = folder_mime, owners = [], description = None,
      fileExtension = None\<rparr>"

definition file_entry :: "string \<Rightarrow> string \<Rightarrow> string \<Rightarrow> string \<Rightarrow> entry" where
  "file_entry i n m ow =
     \<lparr>fileId = i, fileName = n, mimeType = m, owners = [sample_owner ow], description = None,
      fileExtension = None\<rparr>"

definition scenario_form :: form where
  "scenario_form =
     \<lparr>drive_id = ''R'', drive_name = ''Drive'', root_category = ''Cat'',
      metadata_profile_id = ''7'', owner_id = ''me'', metadata_fields = ''m1''\<rparr>"

text \<open>The drive root holds the folder \<open>A\<close> and \<open>img.jpg\<close>; \<open>A\<close> holds \<open>clip.mp4\<close>.\<close>

definition scenario_tree :: "node list" where
  "scenario_tree =
     [Node (folder_entry ''F1'' ''A'')
        [Node (file_entry ''I2'' ''clip.mp4'' ''video/mp4'' ''Ann'') []],
      Node (file_entry ''I1'' ''img.jpg'' ''image/jpeg'' ''Bob'') []]"

text \<open>The drive root holds two empty folders.\<close>

definition two_folders :: "node list" where
  "two_folders = [Node (folder_entry ''F1'' ''A'') [], Node (folder_entry ''F2'' ''B'') []]"

text \<open>The drive root holds two empty folders of the same name.\<close>

definition twin_folders :: "node list" where
  "twin_folders = [Node (folder_entry ''F1'' ''A'') [], Node (folder_entry ''F2'' ''A'') []]"

text \<open>The drive root holds one image whose name begins with a double quote.\<close>

definition quote_tree :: "node list" where
  "quote_tree = [Node (file_entry ''I1'' [dquote, CHR ''x''] ''image/png'' ''Bob'') []]"

text \<open>The drive root holds one image.\<close>

definition one_image :: "node list" where
  "one_image = [Node (file_entry ''I1'' ''img.jpg'' ''image/jpeg'' ''Bob'') []]"

text \<open>A listing with a folder, an item of mime type \<open>x-image/png\<close>, a PDF and an image.\<close>

definition mixed_listing :: "node list" where
  "mixed_listing =
     [Node (folder_entry ''F1'' ''A'') [],
      Node (file_entry ''X1'' ''x.png'' ''x-image/png'' ''Bob'') [],
      Node (file_entry ''P1'' ''doc.pdf'' ''application/pdf'' ''Bob'') [],
      Node (file_entry ''I1'' ''img.jpg'' ''image/jpeg'' ''Bob'') []]"

text \<open>A listing with an image that has no owner, and a second image after it.\<close>

definition orphan_listing :: "node list" where
  "orphan_listing =
     [Node ((file_entry ''O1'' ''orphan.jpg'' ''image/jpeg'' ''Bob'')\<lparr>owners := []\<rparr>) [],
      Node (file_entry ''L1'' ''late.jpg'' ''image/jpeg'' ''Bob'') []]"

text \<open>The form for a second drive, \<open>E\<close>.\<close>

definition second_form :: form where
  "second_form =
     \<lparr>drive_id = ''E'', drive_name = ''Other'', root_category = ''Cat'',
      metadata_profile_id = ''7'', owner_id = ''me'', metadata_fields = ''m1''\<rparr>"

text \<open>Case tables that leave every word as it is. The mime types of the sample drives
  begin with ASCII letters, on which the tables are not consulted.\<close>

definition no_table :: "string \<Rightarrow> string" where
  "no_table word = word"

text \<open>The state of the first run on a freshly loaded page, on a sample drive, after the
  given events; and the state after a later click on another drive and further events.\<close>

definition after :: "node list \<Rightarrow> event list \<Rightarrow> state" where
  "after tree es = the (run no_table es (makeCsv scenario_form tree page_load))"

definition after_second :: "state \<Rightarrow> form \<Rightarrow> node list \<Rightarrow> event list \<Rightarrow> state" where
  "after_second s fm tree es = the (run no_table es (makeCsv fm tree s))"

section \<open>What holds in every state of a run\<close>

text \<open>The calls that the callback of \<open>forEach\<close> starts on the items \<open>ns\<close>, the first of
  which has the index \<open>k\<close> in the listing.\<close>

fun spawned :: "visit \<Rightarrow> nat \<Rightarrow> node list \<Rightarrow> visit list" where
  "spawned v k [] = []"
| "spawned v k (Node file children # ns) =
     (if mimeType file = folder_mime
      then spawn v k file children (folderPath v @ '' - '' @ fileName file) # spawned v (Suc k) ns
      else spawned v (Suc k) ns)"

definition tracked :: "state \<Rightarrow> visit list" where
  "tracked s = inflight s @ settled s @ completed s @ rejected s"

definition delivered :: "state \<Rightarrow> visit list" where
  "delivered s = settled s @ completed s @ rejected s"

definition waiting :: "state \<Rightarrow> visit list" where
  "waiting s = inflight s @ settled s @ rejected s"

text \<open>These hold in every state of every session. \<open>runs\<close> has one token for each
  recursive call whose callback has not run; and every call is a root call sent by
  \<open>makeCsv\<close>, or visits a folder item of a listing that has arrived.\<close>

definition named :: "state \<Rightarrow> visit \<Rightarrow> bool" where
  "named s v \<longleftrightarrow>
     (\<exists>fm tree. v = root_visit fm tree) \<or>
     (\<exists>u\<in>set (delivered s). \<exists>n\<in>set (response u). visits_folder v n)"

definition inv_names :: "state \<Rightarrow> bool" where
  "inv_names s \<longleftrightarrow> (\<forall>v\<in>set (tracked s). named s v)"

text \<open>And every record in \<open>files\<close> is the record of an item of a listing that has
  arrived, for the call that got the listing.\<close>

definition inv_records :: "(string \<Rightarrow> string) \<Rightarrow> state \<Rightarrow> bool" where
  "inv_records up s \<longleftrightarrow>
     (\<forall>f\<in>set (files s). \<exists>v\<in>set (delivered s). \<exists>n\<in>set (response v). record_for up v n = Some f)"


definition inv_count :: "state \<Rightarrow> bool" where
  "inv_count s \<longleftrightarrow>
     length (runs s) = length (filter (\<lambda>v. on_resolve v = Deregister) (waiting s))"

definition is_folder_node :: "node \<Rightarrow> bool" where
  "is_folder_node n = (case n of Node file children \<Rightarrow> mimeType file = folder_mime)"

text \<open>These hold in the first run on a freshly loaded page, started with the form values
  \<open>fm\<close> on the drive \<open>tree\<close>.\<close>

definition inv_paths :: "form \<Rightarrow> state \<Rightarrow> bool" where
  "inv_paths fm s \<longleftrightarrow>
     distinct (map vpath (tracked s)) \<and>
     [] \<in> vpath ` set (tracked s) \<and>
     (\<forall>v\<in>set (tracked s).
        on_resolve v = (if vpath v = [] then StartPolling fm else Deregister)) \<and>
     (\<forall>v\<in>set (tracked s). \<forall>p k. vpath v = p @ [k] \<longrightarrow> p \<in> vpath ` set (delivered s))"

definition inv_tree :: "node list \<Rightarrow> state \<Rightarrow> bool" where
  "inv_tree tree s \<longleftrightarrow>
     (\<forall>v\<in>set (inflight s). listing_at tree (vpath v) = Some (response v) \<and>
        folderName v = folder_name_at tree (vpath v)) \<and>
     (\<forall>v\<in>set (tracked s). listing_at tree (vpath v) \<noteq> None) \<and>
     (\<forall>v\<in>set (settled s @ completed s). \<forall>cs k.
        listing_at tree (vpath v) = Some cs \<longrightarrow> k < length cs \<longrightarrow> is_folder_node (cs ! k) \<longrightarrow>
        vpath v @ [k] \<in> vpath ` set (tracked s))"

definition inv_globals :: "form \<Rightarrow> state \<Rightarrow> bool" where
  "inv_globals fm s \<longleftrightarrow>
     (\<forall>t\<in>set (timers s). inter s = Some (fst t) \<and> snd t = fm) \<and>
     (timers s \<noteq> [] \<longrightarrow> [] \<in> vpath ` set (completed s)) \<and>
     (timers s \<noteq> [] \<or> [] \<notin> vpath ` set (completed s) \<longrightarrow> alerts s = [] \<and> downloads s = []) \<and>
     (\<forall>f\<in>set (files s). length f = 10)"

definition inv :: "form \<Rightarrow> node list \<Rightarrow> state \<Rightarrow> bool" where
  "inv fm tree s \<longleftrightarrow> inv_paths fm s \<and> inv_tree tree s \<and> inv_count s \<and> inv_globals fm s"

text \<open>What every call and every record carries along.\<close>

definition inv_category :: "form \<Rightarrow> state \<Rightarrow> bool" where
  "inv_category fm s \<longleftrightarrow>
     (\<forall>v\<in>set (inflight s). folderPath v = [] \<and> driveName v = drive_name fm \<and>
        categoryName v = root_category fm @ ''>site>channels'') \<and>
     (\<forall>f\<in>set (files s).
        f ! 6 = JStr (root_category fm @ ''>site>channels>'' @ drive_name fm @ '' ''))"

section \<open>Evaluation\<close>

lemmas run_defs = deliver_def getDriveFiles_def resolve_def poll_def interval_callback_def
  deregister_def
  process_file_def spawn_def media_record_def media_type_of_def capitalizeFLetter_def
  toUpperCase_chr_def is_media_def str_indexOf_def indexOf_def splice1_def remove_nth_def
  makeCsv_def root_visit_def folder_mime_def visited_def clearInterval_def page_load_def
  no_table_def Let_def

lemmas ex_defs = sample_owner_def folder_entry_def file_entry_def scenario_form_def
  scenario_tree_def two_folders_def

lemmas ex_defs2 = ex_defs twin_folders_def one_image_def mixed_listing_def orphan_listing_def second_form_def
  after_def after_second_def

section \<open>The CSV serializer\<close>

lemma escapeDoubleQuotes_append:
  "escapeDoubleQuotes (xs @ ys) = escapeDoubleQuotes xs @ escapeDoubleQuotes ys"
  by (simp add: escapeDoubleQuotes_def)

lemma escapeDoubleQuotes_plain: "dquote \<notin> set v \<Longrightarrow> escapeDoubleQuotes v = v"
  by (induction v) (auto simp: escapeDoubleQuotes_def)

text \<open>
  Claim C4, as amended. For every string value, \<open>arrayToCSVLine\<close> emits the value
  wrapped in double quotes, each double quote of the value doubled, when the value
  contains a comma or a newline, and emits the value unchanged when it contains neither
  (also when it contains a double quote).
\<close>

theorem csvValue_quoting:
  "(comma \<in> set v \<or> newline \<in> set v \<longrightarrow>
      csvValue (JStr v) = JStr ([dquote] @ escapeDoubleQuotes v @ [dquote])) \<and>
   (comma \<notin> set v \<and> newline \<notin> set v \<longrightarrow> csvValue (JStr v) = JStr v) \<and>
   (comma \<in> set (xs @ dquote # ys) \<or> newline \<in> set (xs @ dquote # ys) \<longrightarrow>
      csvValue (JStr (xs @ dquote # ys)) =
        JStr ([dquote] @ escapeDoubleQuotes xs @ [dquote, dquote] @ escapeDoubleQuotes ys @ [dquote])) \<and>
   (dquote \<notin> set v \<longrightarrow> escapeDoubleQuotes v = v)"
proof -
  have "escapeDoubleQuotes (xs @ dquote # ys) =
          escapeDoubleQuotes xs @ [dquote, dquote] @ escapeDoubleQuotes ys"
    using escapeDoubleQuotes_append [of xs "dquote # ys"]
    by (simp add: escapeDoubleQuotes_def)
  then show ?thesis
    by (simp add: escapeDoubleQuotes_plain)
qed

text \<open>The values \<open>a,b\<close>, \<open>ab\<close> and \<open>a",b\<close>.\<close>

theorem csvValue_quoting_witness:
  "csvValue (JStr ''a,b'') = JStr ([dquote] @ ''a,b'' @ [dquote]) \<and>
   csvValue (JStr ''ab'') = JStr ''ab'' \<and>
   csvValue (JStr ([CHR ''a''] @ dquote # '',b'')) =
     JStr ([dquote] @ ''a'' @ [dquote, dquote] @ '',b'' @ [dquote])"
  using csvValue_quoting [of "''a,b''" "[CHR ''a'']" "'',b''"]
    csvValue_quoting [of "''ab''" "[]" "[]"]
  by (simp add: escapeDoubleQuotes_def)

text \<open>
  Claim C4 as stated fails on the value \<open>a"b\<close>: it contains a double quote, and it is
  emitted as it is, neither wrapped nor with the quote doubled.
\<close>

theorem csvValue_bare_quote_counterexample:
  "dquote \<in> set [CHR ''a'', dquote, CHR ''b''] \<and>
   csvValue (JStr [CHR ''a'', dquote, CHR ''b'']) = JStr [CHR ''a'', dquote, CHR ''b''] \<and>
   csvValue (JStr [CHR ''a'', dquote, CHR ''b'']) \<noteq>
     JStr ([dquote] @ [CHR ''a'', dquote, dquote, CHR ''b''] @ [dquote])"
  by simp

text \<open>
  Claim C7. The document is to begin with a byte-order mark. The assignment of line 92
  replaces the mark that line 87 put into \<open>csvData\<close>: every document begins with the
  header line, and none begins with the mark.
\<close>

theorem csv_document_starts_with_header:
  "prefix headerLine (csv_document names fs) \<and> \<not> prefix bom (csv_document names fs)"
  by (simp add: csv_document_def Let_def headerLine_def bom_def)

text \<open>drive.html builds its header by the same two statements, with the same result.\<close>

lemma paste_lines_prefix: "paste_lines up fm k ls csvData = Inr doc \<Longrightarrow> prefix csvData doc"
proof (induction ls arbitrary: csvData)
  case Nil
  then show ?case by simp
next
  case (Cons line ls)
  then show ?case
    by (auto split: sum.splits option.splits dest: append_prefixD)
qed

lemma makeCsv_drive_starts_with_header:
  assumes "makeCsv_drive up fm data = Inr doc"
  shows "prefix headerLine doc \<and> \<not> prefix bom doc"
proof -
  from assms obtain rest where "doc = headerLine @ rest"
    by (auto simp: makeCsv_drive_def Let_def prefix_def dest!: paste_lines_prefix)
  then show ?thesis by (simp add: headerLine_def bom_def)
qed

section \<open>The loop of getDriveFiles\<close>

lemma str_indexOf_from_sublist: "str_indexOf_from i s sub > - 1 \<longleftrightarrow> sublist sub s"
  by (induction s arbitrary: i) (auto simp: sublist_Cons_right)

lemma is_media_sublist:
  "is_media m \<longleftrightarrow> sublist ''image/'' m \<or> sublist ''audio/'' m \<or> sublist ''video/'' m"
  by (simp add: is_media_def str_indexOf_def str_indexOf_from_sublist)

lemma the_error: "(e :: error) = TypeError"
  by (cases e)

lemma media_type_of_throws: "(\<exists>e. media_type_of up m = Inl e) \<longleftrightarrow> m = [] \<or> prefix ''/'' m"
  by (cases m) (auto simp: media_type_of_def capitalizeFLetter_def split: list.splits)

lemma is_media_nonempty: "is_media m \<Longrightarrow> m \<noteq> []"
  by (auto simp: is_media_sublist)

lemma process_file_throws:
  assumes "throws n"
  shows "process_file up v k n s = Inl TypeError"
proof -
  obtain fl ch where n: "n = Node fl ch" by (cases n)
  from assms n have m: "mimeType fl \<noteq> folder_mime" "is_media (mimeType fl)"
    and t: "owners fl = [] \<or> prefix ''/'' (mimeType fl)"
    by (simp_all add: throws_def qualifies_def is_media_sublist)
  show ?thesis
  proof (cases "media_type_of up (mimeType fl)")
    case (Inl e)
    with m n show ?thesis by (simp add: process_file_def the_error [of e])
  next
    case (Inr mt)
    with media_type_of_throws [of up "mimeType fl"] have "\<not> prefix ''/'' (mimeType fl)" by auto
    with t have "owners fl = []" by simp
    with Inr m n show ?thesis by (simp add: process_file_def)
  qed
qed

lemma process_file_record:
  assumes "qualifies n" and "\<not> throws n"
  shows "\<exists>r. record_for up v n = Some r \<and>
              process_file up v k n s = Inr (s\<lparr>files := files s @ [r]\<rparr>)"
proof -
  obtain fl ch where n: "n = Node fl ch" by (cases n)
  from assms n have m: "mimeType fl \<noteq> folder_mime" "is_media (mimeType fl)"
    and t: "owners fl \<noteq> []" "\<not> prefix ''/'' (mimeType fl)"
    by (simp_all add: throws_def qualifies_def is_media_sublist)
  from t(1) obtain ow rest where o: "owners fl = ow # rest" by (cases "owners fl") auto
  from t(2) is_media_nonempty [OF m(2)] media_type_of_throws [of up "mimeType fl"]
  obtain mt where mt: "media_type_of up (mimeType fl) = Inr mt"
    by (cases "media_type_of up (mimeType fl)") auto
  from n m o mt show ?thesis
    by (simp add: record_for_def process_file_def)
qed

lemma process_file_skip:
  assumes "\<not> qualifies n"
  shows "\<exists>s1. process_file up v k n s = Inr s1 \<and> files s1 = files s"
proof -
  obtain fl ch where n: "n = Node fl ch" by (cases n)
  from assms n show ?thesis
    by (auto simp: qualifies_def is_media_sublist process_file_def Let_def)
qed

lemma forEach_files_records:
  assumes "forEach_files up v k ns s = (s', r)"
  shows "\<exists>rs. files s' = files s @ rs \<and>
           map Some rs = map (record_for up v) (filter qualifies (takeWhile (\<lambda>n. \<not> throws n) ns)) \<and>
           (r = None \<longleftrightarrow> list_all (\<lambda>n. \<not> throws n) ns)"
  using assms
proof (induction ns arbitrary: k s)
  case Nil
  then show ?case by simp
next
  case (Cons n ns)
  show ?case
  proof (cases "throws n")
    case True
    from process_file_throws [OF True] Cons.prems have "s' = s" "r = Some TypeError"
      by simp_all
    with True show ?thesis by simp
  next
    case nt: False
    show ?thesis
    proof (cases "qualifies n")
      case True
      from process_file_record [OF True nt] obtain rec where rec: "record_for up v n = Some rec"
        "process_file up v k n s = Inr (s\<lparr>files := files s @ [rec]\<rparr>)"
        by blast
      with Cons.prems have "forEach_files up v (Suc k) ns (s\<lparr>files := files s @ [rec]\<rparr>) = (s', r)"
        by simp
      from Cons.IH [OF this] obtain rs where rs: "files s' = (files s @ [rec]) @ rs"
        "map Some rs = map (record_for up v) (filter qualifies (takeWhile (\<lambda>n. \<not> throws n) ns))"
        "r = None \<longleftrightarrow> list_all (\<lambda>n. \<not> throws n) ns"
        by auto
      show ?thesis
        by (intro exI [of _ "rec # rs"]) (use rs rec True nt in simp)
    next
      case False
      from process_file_skip [OF False] obtain s1 where s1: "process_file up v k n s = Inr s1"
        "files s1 = files s"
        by blast
      with Cons.prems have "forEach_files up v (Suc k) ns s1 = (s', r)" by simp
      from Cons.IH [OF this] s1(2) False nt show ?thesis by simp
    qed
  qed
qed

text \<open>
  Claim C6, as amended. For every folder listing that \<open>getDriveFiles\<close> processes, in
  any state of the page, the records appended to \<open>files\<close> are, in the order of the
  listing, one for each item that stands before the first item on which the callback
  throws (an item that is to get a record and has no owner, or whose mime type begins
  with a slash) and whose mime type is not the folder type and contains \<open>image/\<close>,
  \<open>audio/\<close> or \<open>video/\<close> at any position; no other item gets a record. The call ends
  without a throw exactly when the listing has no such throwing item, and then every
  item of the listing with such a mime type gets exactly one record.
\<close>

theorem getDriveFiles_records:
  assumes "getDriveFiles up v s = (s', r)"
  shows "\<exists>rs. files s' = files s @ rs \<and>
           map Some rs = map (record_for up v)
             (filter qualifies (takeWhile (\<lambda>n. \<not> throws n) (response v))) \<and>
           (r = None \<longleftrightarrow> list_all (\<lambda>n. \<not> throws n) (response v)) \<and>
           (r = None \<longrightarrow> map Some rs = map (record_for up v) (filter qualifies (response v)))"
proof -
  from assms have "forEach_files up v 0 (response v) s = (s', r)"
    by (simp add: getDriveFiles_def)
  from forEach_files_records [OF this] obtain rs where rs: "files s' = files s @ rs"
    "map Some rs = map (record_for up v)
       (filter qualifies (takeWhile (\<lambda>n. \<not> throws n) (response v)))"
    "r = None \<longleftrightarrow> list_all (\<lambda>n. \<not> throws n) (response v)"
    by blast
  have "r = None \<longrightarrow> map Some rs = map (record_for up v) (filter qualifies (response v))"
  proof
    assume "r = None"
    with rs(3) have "takeWhile (\<lambda>n. \<not> throws n) (response v) = response v"
      by (simp add: list_all_iff)
    with rs(2) show "map Some rs = map (record_for up v) (filter qualifies (response v))"
      by (simp only:)
  qed
  with rs show ?thesis by blast
qed

text \<open>A listing with a folder, an item of mime type \<open>x-image/png\<close>, a PDF and an image,
  on a freshly loaded page: two records, for the second and the fourth item.\<close>

theorem getDriveFiles_records_witness:
  "files (fst (getDriveFiles no_table (root_visit scenario_form mixed_listing) page_load))
     = [media_record (root_visit scenario_form mixed_listing)
          (file_entry ''X1'' ''x.png'' ''x-image/png'' ''Bob'') (sample_owner ''Bob'') ''X-image'',
        media_record (root_visit scenario_form mixed_listing)
          (file_entry ''I1'' ''img.jpg'' ''image/jpeg'' ''Bob'') (sample_owner ''Bob'') ''Image''] \<and>
   snd (getDriveFiles no_table (root_visit scenario_form mixed_listing) page_load) = None"
proof -
  have g: "getDriveFiles no_table (root_visit scenario_form mixed_listing) page_load
           = (fst (getDriveFiles no_table (root_visit scenario_form mixed_listing) page_load),
              snd (getDriveFiles no_table (root_visit scenario_form mixed_listing) page_load))"
    by simp
  have q: "filter qualifies (takeWhile (\<lambda>n. \<not> throws n) mixed_listing)
           = [Node (file_entry ''X1'' ''x.png'' ''x-image/png'' ''Bob'') [],
              Node (file_entry ''I1'' ''img.jpg'' ''image/jpeg'' ''Bob'') []]"
    "list_all (\<lambda>n. \<not> throws n) mixed_listing"
    by (simp_all add: mixed_listing_def throws_def qualifies_def ex_defs folder_mime_def
        sublist_code)
  have rc: "record_for no_table (root_visit scenario_form mixed_listing)
              (Node (file_entry ''X1'' ''x.png'' ''x-image/png'' ''Bob'') [])
            = Some (media_record (root_visit scenario_form mixed_listing)
                (file_entry ''X1'' ''x.png'' ''x-image/png'' ''Bob'') (sample_owner ''Bob'') ''X-image'')"
    "record_for no_table (root_visit scenario_form mixed_listing)
              (Node (file_entry ''I1'' ''img.jpg'' ''image/jpeg'' ''Bob'') [])
            = Some (media_record (root_visit scenario_form mixed_listing)
                (file_entry ''I1'' ''img.jpg'' ''image/jpeg'' ''Bob'') (sample_owner ''Bob'') ''Image'')"
    by (simp_all add: record_for_def file_entry_def media_type_of_def capitalizeFLetter_def
        toUpperCase_chr_def)
  have rv: "response (root_visit scenario_form mixed_listing) = mixed_listing"
    "files page_load = []"
    by (simp_all add: root_visit_def page_load_def)
  from getDriveFiles_records [OF g] q rc rv show ?thesis
    by (auto simp: map_eq_Cons_conv)
qed

text \<open>
  Claim C6 as stated fails in two ways. In the listing above, the item of mime type
  \<open>x-image/png\<close> gets a record, and its mime type begins with none of \<open>image/\<close>,
  \<open>audio/\<close>, \<open>video/\<close>. And in the listing of \<open>orphan.jpg\<close>, which has no owner, and
  \<open>late.jpg\<close>, the loop ends with a throw on the first item and leaves the page as it
  was: \<open>late.jpg\<close>, of mime type \<open>image/jpeg\<close>, gets no record.
\<close>

theorem getDriveFiles_infix_counterexample:
  "files (fst (getDriveFiles no_table (root_visit scenario_form mixed_listing) page_load))
     = [media_record (root_visit scenario_form mixed_listing)
          (file_entry ''X1'' ''x.png'' ''x-image/png'' ''Bob'') (sample_owner ''Bob'') ''X-image'',
        media_record (root_visit scenario_form mixed_listing)
          (file_entry ''I1'' ''img.jpg'' ''image/jpeg'' ''Bob'') (sample_owner ''Bob'') ''Image''] \<and>
   \<not> prefix ''image/'' ''x-image/png'' \<and> \<not> prefix ''audio/'' ''x-image/png'' \<and>
   \<not> prefix ''video/'' ''x-image/png'' \<and>
   getDriveFiles no_table (root_visit scenario_form orphan_listing) page_load
     = (page_load, Some TypeError) \<and>
   map mimeType (map node_entry orphan_listing) = [''image/jpeg'', ''image/jpeg''] \<and>
   prefix ''image/'' ''image/jpeg''"
  by (simp add: run_defs ex_defs2)

text \<open>The pasted lines of drive.html pass the same test.\<close>

lemma paste_row_adds:
  assumes "paste_row up fm k line = Inr r"
  shows "r \<noteq> None \<longleftrightarrow>
           length (split_chr comma line) = 3 \<and>
           (sublist ''image/'' (split_chr comma line ! 1) \<or> sublist ''audio/'' (split_chr comma line ! 1)
            \<or> sublist ''video/'' (split_chr comma line ! 1))"
  using assms
  by (auto simp: paste_row_def Let_def is_media_sublist split: if_splits sum.splits)

section \<open>The effect of one event\<close>

lemma indexOf_from_undefined: "indexOf_from i xs JUndefined = - 1"
  by (induction xs arbitrary: i) auto

lemma indexOf_undefined: "indexOf xs JUndefined = - 1"
  by (simp add: indexOf_def indexOf_from_undefined)

lemma splice1_minus_one: "splice1 (- 1) xs = butlast xs"
proof (cases "xs = []")
  case True
  then show ?thesis by (simp add: splice1_def)
next
  case False
  then have "length xs \<ge> 1" by (cases xs) auto
  then show ?thesis
    by (simp add: splice1_def Let_def butlast_conv_take nat_diff_distrib' max_def)
qed

lemma mset_remove_nth: "i < length xs \<Longrightarrow> add_mset (xs ! i) (mset (remove_nth i xs)) = mset xs"
  unfolding remove_nth_def
  by (metis append_take_drop_id Cons_nth_drop_Suc mset.simps(2) mset_append union_mset_add_mset_right id_take_nth_drop)

lemma set_remove_nth: "i < length xs \<Longrightarrow> insert (xs ! i) (set (remove_nth i xs)) = set xs"
  using mset_remove_nth [of i xs] by (metis set_mset_mset set_mset_add_mset_insert)

lemma process_file_effect:
  assumes "process_file up v k (Node file children) s = Inr s'"
  shows "inflight s' = inflight s @ spawned v k [Node file children] \<and>
         length (runs s') = length (runs s) + length (spawned v k [Node file children]) \<and>
         (\<exists>fs. files s' = files s @ fs \<and> (\<forall>f\<in>set fs. length f = 10)) \<and>
         settled s' = settled s \<and> completed s' = completed s \<and> rejected s' = rejected s \<and>
         inter s' = inter s \<and> timers s' = timers s \<and> alerts s' = alerts s \<and>
         downloads s' = downloads s"
  using assms
  by (auto simp: process_file_def Let_def media_record_def split: if_splits sum.splits list.splits)

lemma spawned_append: "spawned v k (xs @ ys) = spawned v k xs @ spawned v (k + length xs) ys"
proof (induction xs arbitrary: k)
  case Nil
  then show ?case by simp
next
  case (Cons n xs)
  then show ?case by (cases n) simp
qed

lemma forEach_files_effect:
  assumes "forEach_files up v k ns s = (s', r)"
  shows "\<exists>m. m \<le> length ns \<and> (r = None \<longrightarrow> m = length ns) \<and>
           inflight s' = inflight s @ spawned v k (take m ns) \<and>
           length (runs s') = length (runs s) + length (spawned v k (take m ns)) \<and>
           (\<exists>fs. files s' = files s @ fs \<and> (\<forall>f\<in>set fs. length f = 10)) \<and>
           settled s' = settled s \<and> completed s' = completed s \<and> rejected s' = rejected s \<and>
           inter s' = inter s \<and> timers s' = timers s \<and> alerts s' = alerts s \<and>
           downloads s' = downloads s"
  using assms
proof (induction ns arbitrary: k s)
  case Nil
  then show ?case by simp
next
  case (Cons n ns)
  obtain fl ch where n: "n = Node fl ch" by (cases n)
  show ?case
  proof (cases "process_file up v k n s")
    case (Inl e)
    with Cons.prems have "s' = s" "r = Some e" by simp_all
    then show ?thesis by (intro exI [of _ 0]) simp
  next
    case (Inr s1)
    with Cons.prems have "forEach_files up v (Suc k) ns s1 = (s', r)" by simp
    from Cons.IH [OF this] obtain m where m: "m \<le> length ns" "r = None \<longrightarrow> m = length ns"
      "inflight s' = inflight s1 @ spawned v (Suc k) (take m ns)"
      "length (runs s') = length (runs s1) + length (spawned v (Suc k) (take m ns))"
      "\<exists>fs. files s' = files s1 @ fs \<and> (\<forall>f\<in>set fs. length f = 10)"
      "settled s' = settled s1" "completed s' = completed s1" "rejected s' = rejected s1"
      "inter s' = inter s1" "timers s' = timers s1" "alerts s' = alerts s1"
      "downloads s' = downloads s1"
      by blast
    from Inr n have pf: "process_file up v k (Node fl ch) s = Inr s1" by simp
    note e = process_file_effect [OF pf]
    have sp: "spawned v k (take (Suc m) (n # ns)) = spawned v k [n] @ spawned v (Suc k) (take m ns)"
      using spawned_append [of v k "[n]" "take m ns"] by simp
    from e m(5) have fsx: "\<exists>fs. files s' = files s @ fs \<and> (\<forall>f\<in>set fs. length f = 10)"
      by (metis append.assoc set_append UnE)
    show ?thesis
      by (intro exI [of _ "Suc m"]) (use m e sp n fsx in simp)
  qed
qed

lemma deliver_effect:
  assumes "deliver up i s = Some s'"
  obtains m where "i < length (inflight s)" "m \<le> length (response (inflight s ! i))"
    "inflight s' = remove_nth i (inflight s)
       @ spawned (inflight s ! i) 0 (take m (response (inflight s ! i)))"
    "length (runs s') = length (runs s)
       + length (spawned (inflight s ! i) 0 (take m (response (inflight s ! i))))"
    "\<exists>fs. files s' = files s @ fs \<and> (\<forall>f\<in>set fs. length f = 10)"
    "completed s' = completed s" "inter s' = inter s" "timers s' = timers s"
    "alerts s' = alerts s" "downloads s' = downloads s"
    "(m = length (response (inflight s ! i)) \<and> settled s' = settled s @ [inflight s ! i]
        \<and> rejected s' = rejected s)
     \<or> (settled s' = settled s \<and> rejected s' = rejected s @ [inflight s ! i])"
proof -
  define v where "v = inflight s ! i"
  define s1 where "s1 = s\<lparr>inflight := remove_nth i (inflight s)\<rparr>"
  from assms have i: "i < length (inflight s)"
    by (simp add: deliver_def split: if_splits)
  obtain s2 r where fe: "forEach_files up v 0 (response v) s1 = (s2, r)"
    by (cases "forEach_files up v 0 (response v) s1")
  from forEach_files_effect [OF fe] obtain m where m:
    "m \<le> length (response v)" "r = None \<longrightarrow> m = length (response v)"
    "inflight s2 = inflight s1 @ spawned v 0 (take m (response v))"
    "length (runs s2) = length (runs s1) + length (spawned v 0 (take m (response v)))"
    "\<exists>fs. files s2 = files s1 @ fs \<and> (\<forall>f\<in>set fs. length f = 10)"
    "settled s2 = settled s1" "completed s2 = completed s1" "rejected s2 = rejected s1"
    "inter s2 = inter s1" "timers s2 = timers s1" "alerts s2 = alerts s1"
    "downloads s2 = downloads s1"
    by blast
  from assms i fe have s': "s' = (case r of None \<Rightarrow> s2\<lparr>settled := settled s2 @ [v]\<rparr>
                                          | Some e \<Rightarrow> s2\<lparr>rejected := rejected s2 @ [v]\<rparr>)"
    by (auto simp: deliver_def getDriveFiles_def Let_def v_def s1_def split: option.splits)
  show ?thesis
  proof (rule that [of m])
    show "i < length (inflight s)" by (rule i)
    show "m \<le> length (response (inflight s ! i))" using m(1) by (simp add: v_def)
    show "inflight s' = remove_nth i (inflight s)
       @ spawned (inflight s ! i) 0 (take m (response (inflight s ! i)))"
      using m(3) s' by (simp add: v_def s1_def split: option.splits)
    show "length (runs s') = length (runs s)
       + length (spawned (inflight s ! i) 0 (take m (response (inflight s ! i))))"
      using m(4) s' by (simp add: v_def s1_def split: option.splits)
    show "\<exists>fs. files s' = files s @ fs \<and> (\<forall>f\<in>set fs. length f = 10)"
      using m(5) s' by (simp add: v_def s1_def split: option.splits)
    show "completed s' = completed s" using m(7) s' by (simp add: s1_def split: option.splits)
    show "inter s' = inter s" using m(9) s' by (simp add: s1_def split: option.splits)
    show "timers s' = timers s" using m(10) s' by (simp add: s1_def split: option.splits)
    show "alerts s' = alerts s" using m(11) s' by (simp add: s1_def split: option.splits)
    show "downloads s' = downloads s" using m(12) s' by (simp add: s1_def split: option.splits)
    show "(m = length (response (inflight s ! i)) \<and> settled s' = settled s @ [inflight s ! i]
        \<and> rejected s' = rejected s)
     \<or> (settled s' = settled s \<and> rejected s' = rejected s @ [inflight s ! i])"
      using m(2,6,8) s' by (cases r) (simp_all add: v_def s1_def)
  qed
qed

lemma resolve_effect:
  assumes "resolve j s = Some s'"
  shows "j < length (settled s) \<and> settled s' = remove_nth j (settled s) \<and>
         completed s' = completed s @ [settled s ! j] \<and> inflight s' = inflight s \<and>
         rejected s' = rejected s \<and> files s' = files s \<and> alerts s' = alerts s \<and>
         downloads s' = downloads s \<and>
         (case on_resolve (settled s ! j) of
            StartPolling fm \<Rightarrow>
              inter s' = Some (Suc (timer_ids s)) \<and>
              timers s' = timers s @ [(Suc (timer_ids s), fm)] \<and> runs s' = runs s
          | Deregister \<Rightarrow>
              inter s' = inter s \<and> timers s' = timers s \<and> runs s' = butlast (runs s))"
  using assms
  by (auto simp: resolve_def Let_def deregister_def indexOf_undefined splice1_minus_one
      split: if_splits continuation.splits)

lemma poll_effect:
  assumes "poll k s = Some s'"
  shows "k < length (timers s) \<and> settled s = [] \<and> runs s' = runs s \<and> files s' = files s \<and>
         inflight s' = inflight s \<and> settled s' = settled s \<and> completed s' = completed s \<and>
         rejected s' = rejected s \<and> inter s' = inter s \<and>
         (if runs s = [] then timers s' = clearInterval (inter s) (timers s) \<and>
            (if files s = [] then alerts s' = alerts s @ [''could not list files'']
                                  \<and> downloads s' = downloads s
             else alerts s' = alerts s \<and>
                  downloads s' = downloads s
                    @ [(csv_document (metadata_fields (snd (timers s ! k))) (files s),
                        ''bulk_upload.csv'')])
          else s' = s)"
  using assms
  by (auto simp: poll_def interval_callback_def Let_def split: if_splits)

lemma spawned_mem:
  "w \<in> set (spawned v k ns) \<longleftrightarrow>
     (\<exists>j fl ch. j < length ns \<and> ns ! j = Node fl ch \<and> mimeType fl = folder_mime \<and>
        w = spawn v (k + j) fl ch (folderPath v @ '' - '' @ fileName fl))"
proof (induction ns arbitrary: k)
  case Nil
  then show ?case by simp
next
  case (Cons n ns)
  obtain f c where n: "n = Node f c" by (cases n)
  have "(\<exists>j fl ch. j < length (n # ns) \<and> (n # ns) ! j = Node fl ch \<and> mimeType fl = folder_mime \<and>
          w = spawn v (k + j) fl ch (folderPath v @ '' - '' @ fileName fl))
        \<longleftrightarrow> (mimeType f = folder_mime \<and> w = spawn v k f c (folderPath v @ '' - '' @ fileName f))
           \<or> (\<exists>j fl ch. j < length ns \<and> ns ! j = Node fl ch \<and> mimeType fl = folder_mime \<and>
          w = spawn v (Suc k + j) fl ch (folderPath v @ '' - '' @ fileName fl))"
    (is "?L \<longleftrightarrow> ?A \<or> ?B")
  proof
    assume ?L
    then obtain j fl ch where j: "j < length (n # ns)" "(n # ns) ! j = Node fl ch"
      "mimeType fl = folder_mime" "w = spawn v (k + j) fl ch (folderPath v @ '' - '' @ fileName fl)"
      by blast
    show "?A \<or> ?B"
    proof (cases j)
      case 0
      with j n show ?thesis by simp
    next
      case (Suc j')
      with j have "j' < length ns" "ns ! j' = Node fl ch" 
        "w = spawn v (Suc k + j') fl ch (folderPath v @ '' - '' @ fileName fl)" by simp_all
      with j(3) show ?thesis by blast
    qed
  next
    assume "?A \<or> ?B"
    then show ?L
    proof
      assume ?A
      then show ?L using n by (intro exI [of _ 0]) simp
    next
      assume ?B
      then obtain j fl ch where "j < length ns" "ns ! j = Node fl ch" "mimeType fl = folder_mime"
        "w = spawn v (Suc k + j) fl ch (folderPath v @ '' - '' @ fileName fl)" by blast
      then show ?L by (intro exI [of _ "Suc j"]) simp
    qed
  qed
  with Cons.IH [of "Suc k"] n show ?case by auto
qed

lemma spawned_vpath_ge:
  "w \<in> set (spawned v k ns) \<Longrightarrow> \<exists>j\<ge>k. vpath w = vpath v @ [j]"
  by (auto simp: spawned_mem spawn_def)

lemma distinct_spawned: "distinct (map vpath (spawned v k ns))"
proof (induction ns arbitrary: k)
  case Nil
  then show ?case by simp
next
  case (Cons n ns)
  obtain f c where n: "n = Node f c" by (cases n)
  have "vpath (spawn v k f c x) \<notin> vpath ` set (spawned v (Suc k) ns)" for x
  proof
    assume "vpath (spawn v k f c x) \<in> vpath ` set (spawned v (Suc k) ns)"
    then obtain w where "w \<in> set (spawned v (Suc k) ns)" "vpath w = vpath v @ [k]"
      by (auto simp: spawn_def)
    with spawned_vpath_ge [of w v "Suc k" ns] show False by auto
  qed
  with Cons.IH [of "Suc k"] n show ?case by simp
qed

lemma listing_at_snoc:
  "listing_at cs (p @ [k]) =
     (case listing_at cs p of
        None \<Rightarrow> None
      | Some ds \<Rightarrow>
          if k < length ds then
            (case ds ! k of Node fl ch \<Rightarrow> if mimeType fl = folder_mime then Some ch else None)
          else None)"
  by (induction cs p rule: listing_at.induct) (auto split: node.splits)

lemma folder_name_at_snoc:
  "listing_at cs p = Some ds \<Longrightarrow> k < length ds \<Longrightarrow>
     folder_name_at cs (p @ [k]) = (case ds ! k of Node fl ch \<Rightarrow> fileName fl)"
proof (induction p arbitrary: cs)
  case Nil
  then show ?case by simp
next
  case (Cons a q)
  obtain j p' where jp: "q @ [k] = j # p'" by (cases "q @ [k]") auto
  from Cons.prems(1) obtain f c where a: "a < length cs" "cs ! a = Node f c"
    "mimeType f = folder_mime" "listing_at c q = Some ds"
    by (auto split: if_splits node.splits)
  have "folder_name_at cs ((a # q) @ [k]) = folder_name_at c (q @ [k])"
    using a jp by simp
  with Cons.IH [OF a(4) Cons.prems(2)] show ?case by simp
qed

section \<open>The invariant is kept by every event\<close>

lemma distinct_map_appendD:
  "distinct (map f (xs @ ys)) \<Longrightarrow> x \<in> set xs \<Longrightarrow> y \<in> set ys \<Longrightarrow> f x \<noteq> f y"
  by auto

lemma distinct_map_mset_cong:
  "mset xs = mset ys \<Longrightarrow> distinct (map f xs) = distinct (map f ys)"
  by (metis mset_eq_imp_distinct_iff mset_map)

lemma length_filter_mset_cong:
  "mset xs = mset ys \<Longrightarrow> length (filter P xs) = length (filter P ys)"
  by (metis mset_filter size_mset)

lemma spawned_deregister: "w \<in> set (spawned v k ns) \<Longrightarrow> on_resolve w = Deregister"
  by (auto simp: spawned_mem spawn_def)

lemma inv_count_deliver:
  assumes "inv_count s" and d: "deliver up i s = Some s'"
  shows "inv_count s'"
proof -
  define v where "v = inflight s ! i"
  from d obtain m where i: "i < length (inflight s)" and m: "m \<le> length (response v)"
    and infl: "inflight s' = remove_nth i (inflight s) @ spawned v 0 (take m (response v))"
    and rn: "length (runs s') = length (runs s) + length (spawned v 0 (take m (response v)))"
    and fl: "\<exists>fs. files s' = files s @ fs \<and> (\<forall>f\<in>set fs. length f = 10)"
    and same: "completed s' = completed s" "inter s' = inter s" "timers s' = timers s"
      "alerts s' = alerts s" "downloads s' = downloads s"
    and out: "(m = length (response v) \<and> settled s' = settled s @ [v] \<and> rejected s' = rejected s)
       \<or> (settled s' = settled s \<and> rejected s' = rejected s @ [v])"
    unfolding v_def by (rule deliver_effect)
  define new where "new = spawned v 0 (take m (response v))"
  have R: "mset (inflight s) = add_mset v (mset (remove_nth i (inflight s)))"
    using mset_remove_nth [OF i] by (simp add: v_def)
  have wt: "mset (waiting s') = mset (waiting s @ new)"
    using out by (auto simp: waiting_def infl R new_def)
  have "length (filter (\<lambda>v. on_resolve v = Deregister) new) = length new"
    using spawned_deregister by (simp add: filter_id_conv new_def)
  then show ?thesis
    using assms(1) length_filter_mset_cong [OF wt, of "\<lambda>v. on_resolve v = Deregister"] rn
    by (simp add: inv_count_def new_def)
qed

lemma inv_count_resolve:
  assumes "inv_count s" and r: "resolve j s = Some s'"
  shows "inv_count s'"
proof -
  define v where "v = settled s ! j"
  from resolve_effect [OF r] have j: "j < length (settled s)"
    and st: "settled s' = remove_nth j (settled s)"
    and same: "inflight s' = inflight s" "rejected s' = rejected s"
    and k: "case on_resolve v of StartPolling f \<Rightarrow> runs s' = runs s
             | Deregister \<Rightarrow> runs s' = butlast (runs s)"
    by (simp_all add: v_def split: continuation.splits)
  have R: "mset (settled s) = add_mset v (mset (remove_nth j (settled s)))"
    using mset_remove_nth [OF j] by (simp add: v_def)
  have wt: "mset (waiting s) = add_mset v (mset (waiting s'))"
    by (simp add: waiting_def st same R)
  have cnt: "length (filter (\<lambda>v. on_resolve v = Deregister) (waiting s)) =
      (if on_resolve v = Deregister then 1 else 0)
      + length (filter (\<lambda>v. on_resolve v = Deregister) (waiting s'))"
    using length_filter_mset_cong [of "waiting s" "v # waiting s'" "\<lambda>v. on_resolve v = Deregister"] wt
    by simp
  show ?thesis
  proof (cases "on_resolve v")
    case (StartPolling f)
    with k cnt assms(1) show ?thesis by (simp add: inv_count_def)
  next
    case Deregister
    with k cnt assms(1) show ?thesis by (simp add: inv_count_def)
  qed
qed

lemma inv_count_poll:
  assumes "inv_count s" and "poll k s = Some s'"
  shows "inv_count s'"
  using assms(1) poll_effect [OF assms(2)] by (simp add: inv_count_def waiting_def)

lemma inv_count_step: "inv_count s \<Longrightarrow> step up e s = Some s' \<Longrightarrow> inv_count s'"
  by (cases e) (auto intro: inv_count_deliver inv_count_resolve inv_count_poll)

lemma inv_count_makeCsv: "inv_count s \<Longrightarrow> inv_count (makeCsv fm tree s)"
  by (simp add: inv_count_def makeCsv_def root_visit_def waiting_def)

lemma inv_count_session: "inv_count s \<Longrightarrow> session up acts s = Some s' \<Longrightarrow> inv_count s'"
proof (induction acts arbitrary: s)
  case Nil
  then show ?case by simp
next
  case (Cons a acts)
  show ?case
  proof (cases a)
    case (Click fm tree)
    with Cons.prems Cons.IH [of "makeCsv fm tree s"] show ?thesis
      by (simp add: inv_count_makeCsv)
  next
    case (Turn e)
    with Cons.prems Cons.IH show ?thesis
      by (auto split: option.splits dest: inv_count_step)
  qed
qed

lemma inv_count_page_load: "inv_count page_load"
  by (simp add: inv_count_def page_load_def waiting_def)

lemma inv_deliver:
  assumes inv: "inv fm tree s" and d: "deliver up i s = Some s'"
  shows "inv fm tree s'"
proof -
  define v where "v = inflight s ! i"
  from d obtain m where i: "i < length (inflight s)" and m: "m \<le> length (response v)"
    and infl: "inflight s' = remove_nth i (inflight s) @ spawned v 0 (take m (response v))"
    and rn: "length (runs s') = length (runs s) + length (spawned v 0 (take m (response v)))"
    and fl: "\<exists>fs. files s' = files s @ fs \<and> (\<forall>f\<in>set fs. length f = 10)"
    and same: "completed s' = completed s" "inter s' = inter s" "timers s' = timers s"
      "alerts s' = alerts s" "downloads s' = downloads s"
    and out: "(m = length (response v) \<and> settled s' = settled s @ [v] \<and> rejected s' = rejected s)
       \<or> (settled s' = settled s \<and> rejected s' = rejected s @ [v])"
    unfolding v_def by (rule deliver_effect)
  define new where "new = spawned v 0 (take m (response v))"
  from inv have ip: "inv_paths fm s" and it: "inv_tree tree s" and ig: "inv_globals fm s"
    by (simp_all add: inv_def)
  have vin: "v \<in> set (inflight s)" using i by (simp add: v_def)
  have R: "mset (inflight s) = add_mset v (mset (remove_nth i (inflight s)))"
    using mset_remove_nth [OF i] by (simp add: v_def)
  have tr: "mset (tracked s') = mset (tracked s @ new)"
    using out by (auto simp: tracked_def infl same R new_def)
  have wt: "mset (waiting s') = mset (waiting s @ new)"
    using out by (auto simp: waiting_def infl same R new_def)
  have trs: "set (tracked s') = set (tracked s) \<union> set new"
    using tr by (metis mset_eq_setD set_append)
  have dl: "set (delivered s') = insert v (set (delivered s))"
    using out by (auto simp: delivered_def same)
  have infs: "set (inflight s') \<subseteq> set (inflight s) \<union> set new"
    using set_remove_nth [OF i] by (auto simp: infl new_def)
  have vlist: "listing_at tree (vpath v) = Some (response v)"
    using it vin by (simp add: inv_tree_def)
  have newD: "\<exists>j fl ch. j < length (response v) \<and> response v ! j = Node fl ch \<and>
      mimeType fl = folder_mime \<and> w = spawn v j fl ch (folderPath v @ '' - '' @ fileName fl)"
    if "w \<in> set new" for w
  proof -
    from that obtain j fl ch where "j < length (take m (response v))"
      "take m (response v) ! j = Node fl ch" "mimeType fl = folder_mime"
      "w = spawn v (0 + j) fl ch (folderPath v @ '' - '' @ fileName fl)"
      unfolding new_def spawned_mem by blast
    then show ?thesis by (intro exI [of _ j] exI [of _ fl] exI [of _ ch]) simp
  qed
  have new_path: "\<exists>j. vpath w = vpath v @ [j]" if "w \<in> set new" for w
    using newD [OF that] by (auto simp: spawn_def)
  have fresh: "vpath u \<noteq> vpath v @ [j]" if "u \<in> set (tracked s)" for u j
  proof
    assume "vpath u = vpath v @ [j]"
    with ip that have "vpath v \<in> vpath ` set (delivered s)"
      by (auto simp: inv_paths_def)
    then obtain u' where u': "u' \<in> set (delivered s)" "vpath u' = vpath v" by auto
    from ip have "distinct (map vpath (inflight s @ delivered s))"
      by (simp add: inv_paths_def tracked_def delivered_def)
    from distinct_map_appendD [OF this vin u'(1)] u'(2) show False by simp
  qed
  have "inv_paths fm s'"
    unfolding inv_paths_def
  proof (intro conjI ballI allI impI)
    have "distinct (map vpath (tracked s @ new))"
      using ip distinct_spawned [of v 0 "take m (response v)"] fresh new_path
      by (fastforce simp: inv_paths_def new_def)
    then show "distinct (map vpath (tracked s'))"
      using distinct_map_mset_cong [OF tr, of vpath] by simp
    show "[] \<in> vpath ` set (tracked s')"
      using ip by (auto simp: inv_paths_def trs)
  next
    fix w assume "w \<in> set (tracked s')"
    then consider "w \<in> set (tracked s)" | "w \<in> set new" by (auto simp: trs)
    then show "on_resolve w = (if vpath w = [] then StartPolling fm else Deregister)"
    proof cases
      case 1
      with ip show ?thesis by (simp add: inv_paths_def)
    next
      case 2
      from newD [OF this] show ?thesis by (auto simp: spawn_def)
    qed
  next
    fix w p k assume w: "w \<in> set (tracked s')" "vpath w = p @ [k]"
    from w(1) consider "w \<in> set (tracked s)" | "w \<in> set new" by (auto simp: trs)
    then show "p \<in> vpath ` set (delivered s')"
    proof cases
      case 1
      with ip w(2) have "p \<in> vpath ` set (delivered s)" by (auto simp: inv_paths_def)
      then show ?thesis by (auto simp: dl)
    next
      case 2
      from new_path [OF this] w(2) have "p = vpath v" by auto
      then show ?thesis by (simp add: dl)
    qed
  qed
  moreover have "inv_tree tree s'"
    unfolding inv_tree_def
  proof (intro conjI ballI allI impI)
    fix w assume "w \<in> set (inflight s')"
    with infs consider "w \<in> set (inflight s)" | "w \<in> set new" by auto
    then show "listing_at tree (vpath w) = Some (response w)"
    proof cases
      case 1
      with it show ?thesis by (simp add: inv_tree_def)
    next
      case 2
      from newD [OF this] vlist show ?thesis
        by (auto simp: spawn_def listing_at_snoc)
    qed
  next
    fix w assume "w \<in> set (inflight s')"
    with infs consider "w \<in> set (inflight s)" | "w \<in> set new" by auto
    then show "folderName w = folder_name_at tree (vpath w)"
    proof cases
      case 1
      with it show ?thesis by (simp add: inv_tree_def)
    next
      case 2
      from newD [OF this] obtain j fl ch where j: "j < length (response v)"
        "response v ! j = Node fl ch"
        "w = spawn v j fl ch (folderPath v @ '' - '' @ fileName fl)" by blast
      from folder_name_at_snoc [OF vlist j(1)] j(2,3) show ?thesis
        by (simp add: spawn_def)
    qed
  next
    fix w assume "w \<in> set (tracked s')"
    then consider "w \<in> set (tracked s)" | "w \<in> set new" by (auto simp: trs)
    then show "listing_at tree (vpath w) \<noteq> None"
    proof cases
      case 1
      with it show ?thesis by (simp add: inv_tree_def)
    next
      case 2
      from newD [OF this] vlist show ?thesis
        by (auto simp: spawn_def listing_at_snoc)
    qed
  next
    fix w cs k
    assume w: "w \<in> set (settled s' @ completed s')"
      and cs: "listing_at tree (vpath w) = Some cs" "k < length cs" "is_folder_node (cs ! k)"
    from w out consider "w \<in> set (settled s @ completed s)"
      | "w = v" "m = length (response v)" by (auto simp: same)
    then show "vpath w @ [k] \<in> vpath ` set (tracked s')"
    proof cases
      case 1
      with it cs have "vpath w @ [k] \<in> vpath ` set (tracked s)"
        unfolding inv_tree_def by blast
      then show ?thesis by (auto simp: trs)
    next
      case 2
      with cs vlist have csv: "cs = response v" by simp
      obtain fl ch where n: "response v ! k = Node fl ch" by (cases "response v ! k")
      with cs(3) csv have "mimeType fl = folder_mime" by (simp add: is_folder_node_def)
      with n cs(2) csv 2 have "spawn v (0 + k) fl ch (folderPath v @ '' - '' @ fileName fl) \<in> set new"
        unfolding new_def spawned_mem by (intro exI [of _ k] exI [of _ fl] exI [of _ ch]) simp
      moreover have "vpath (spawn v (0 + k) fl ch (folderPath v @ '' - '' @ fileName fl)) = vpath v @ [k]"
        by (simp add: spawn_def)
      ultimately have "vpath v @ [k] \<in> vpath ` set new"
        by (metis imageI)
      with 2 show ?thesis by (auto simp: trs)
    qed
  qed
  moreover have "inv_globals fm s'"
    using ig fl by (auto simp: inv_globals_def same)
  moreover have "inv_count s'"
    using inv inv_count_deliver [OF _ d] by (simp add: inv_def)
  ultimately show ?thesis by (simp add: inv_def)
qed

lemma inv_resolve:
  assumes inv: "inv fm tree s" and r: "resolve j s = Some s'"
  shows "inv fm tree s'"
proof -
  define v where "v = settled s ! j"
  from resolve_effect [OF r] have j: "j < length (settled s)"
    and st: "settled s' = remove_nth j (settled s)" "completed s' = completed s @ [v]"
    and same: "inflight s' = inflight s" "rejected s' = rejected s" "files s' = files s"
      "alerts s' = alerts s" "downloads s' = downloads s"
    and k: "case on_resolve v of
              StartPolling f \<Rightarrow> inter s' = Some (Suc (timer_ids s)) \<and>
                timers s' = timers s @ [(Suc (timer_ids s), f)]
            | Deregister \<Rightarrow> inter s' = inter s \<and> timers s' = timers s"
    by (simp_all add: v_def split: continuation.splits)
  from inv have ip: "inv_paths fm s" and it: "inv_tree tree s" and ig: "inv_globals fm s"
    by (simp_all add: inv_def)
  have vin: "v \<in> set (settled s)" using j by (simp add: v_def)
  have R: "mset (settled s) = add_mset v (mset (remove_nth j (settled s)))"
    using mset_remove_nth [OF j] by (simp add: v_def)
  have tr: "mset (tracked s') = mset (tracked s)"
    by (simp add: tracked_def st same R)
  have trs: "set (tracked s') = set (tracked s)"
    using tr by (rule mset_eq_setD)
  have dl: "set (delivered s') = set (delivered s)"
    using mset_eq_setD [of "delivered s'" "delivered s"] by (simp add: delivered_def st same R)
  have sc: "set (settled s' @ completed s') = set (settled s @ completed s)"
    using mset_eq_setD [of "settled s' @ completed s'" "settled s @ completed s"]
    by (simp add: st R)
  have vtr: "v \<in> set (tracked s)" using vin by (simp add: tracked_def)
  have root: "on_resolve v = (if vpath v = [] then StartPolling fm else Deregister)"
    using ip vtr by (simp add: inv_paths_def)
  have notc: "vpath v \<notin> vpath ` set (completed s)"
  proof
    assume "vpath v \<in> vpath ` set (completed s)"
    then obtain u where u: "u \<in> set (completed s)" "vpath u = vpath v" by auto
    from ip have "distinct (map vpath (settled s @ completed s))"
      by (auto simp: inv_paths_def tracked_def)
    from distinct_map_appendD [OF this vin u(1)] u(2) show False by simp
  qed
  have "inv_paths fm s'"
    using ip distinct_map_mset_cong [OF tr, of vpath]
    by (simp add: inv_paths_def trs dl)
  moreover have "inv_tree tree s'"
    using it unfolding inv_tree_def trs sc same by simp
  moreover have "inv_count s'"
    using inv inv_count_resolve [OF _ r] by (simp add: inv_def)
  moreover have "inv_globals fm s'"
  proof (cases "vpath v = []")
    case True
    with root k have t: "inter s' = Some (Suc (timer_ids s))"
      "timers s' = timers s @ [(Suc (timer_ids s), fm)]" by simp_all
    from True notc have nc: "[] \<notin> vpath ` set (completed s)" by simp
    with ig have "timers s = []" "alerts s = []" "downloads s = []"
      by (auto simp: inv_globals_def)
    with t ig True show ?thesis
      by (simp add: inv_globals_def st same)
  next
    case False
    with root k have t: "inter s' = inter s" "timers s' = timers s" by simp_all
    with ig show ?thesis
      by (auto simp: inv_globals_def st same)
  qed
  ultimately show ?thesis by (simp add: inv_def)
qed

lemma clearInterval_all:
  "\<forall>t\<in>set ts. i = Some (fst t) \<Longrightarrow> clearInterval i ts = []"
  by (induction ts) (auto simp: clearInterval_def)

lemma inv_poll:
  assumes inv: "inv fm tree s" and p: "poll k s = Some s'"
  shows "inv fm tree s'"
proof -
  note e = poll_effect [OF p]
  from inv have ip: "inv_paths fm s" and it: "inv_tree tree s" and ig: "inv_globals fm s"
    by (simp_all add: inv_def)
  from e have tr: "tracked s' = tracked s" "delivered s' = delivered s" "waiting s' = waiting s"
    by (simp_all add: tracked_def delivered_def waiting_def)
  have "inv_paths fm s'" using ip by (simp add: inv_paths_def tr)
  moreover have "inv_tree tree s'" using it e by (simp add: inv_tree_def tr)
  moreover have "inv_count s'"
    using inv inv_count_poll [OF _ p] by (simp add: inv_def)
  moreover have "inv_globals fm s'"
  proof (cases "runs s = []")
    case True
    from ig have "clearInterval (inter s) (timers s) = []"
      by (intro clearInterval_all) (simp add: inv_globals_def)
    with True e have "timers s' = []" by simp
    moreover from e ig have "[] \<in> vpath ` set (completed s')"
      by (auto simp: inv_globals_def)
    ultimately show ?thesis using ig e by (simp add: inv_globals_def)
  next
    case False
    with e ig show ?thesis by simp
  qed
  ultimately show ?thesis by (simp add: inv_def)
qed

lemma inv_step: "inv fm tree s \<Longrightarrow> step up e s = Some s' \<Longrightarrow> inv fm tree s'"
  by (cases e) (auto intro: inv_deliver inv_resolve inv_poll)

lemma inv_run: "inv fm tree s \<Longrightarrow> run up es s = Some s' \<Longrightarrow> inv fm tree s'"
proof (induction es arbitrary: s)
  case Nil
  then show ?case by simp
next
  case (Cons e es)
  then show ?case by (auto split: option.splits dest: inv_step)
qed

lemma inv_makeCsv: "inv fm tree (makeCsv fm tree page_load)"
  by (simp add: inv_def inv_paths_def inv_tree_def inv_globals_def inv_count_def makeCsv_def
      page_load_def root_visit_def tracked_def delivered_def waiting_def)

lemma inv_reachable: "run up es (makeCsv fm tree page_load) = Some s \<Longrightarrow> inv fm tree s"
  using inv_run [OF inv_makeCsv] .

lemma count_list_distinct: "distinct xs \<Longrightarrow> x \<in> set xs \<Longrightarrow> count_list xs x = 1"
  by (induction xs) auto

lemma waiting_nonroot:
  assumes "inv fm tree s" and "[] \<in> set (visited s)" and "w \<in> set (waiting s)"
  shows "on_resolve w = Deregister"
proof (rule ccontr)
  assume nd: "on_resolve w \<noteq> Deregister"
  from assms(1) have ip: "inv_paths fm s" by (simp add: inv_def)
  from assms(3) have "w \<in> set (tracked s)" by (auto simp: waiting_def tracked_def)
  with ip nd have "vpath w = []" by (auto simp: inv_paths_def split: if_splits)
  moreover from assms(2) obtain u where "u \<in> set (completed s)" "vpath u = []"
    by (auto simp: visited_def)
  moreover from ip have "distinct (map vpath (waiting s @ completed s))"
    by (auto simp: inv_paths_def tracked_def waiting_def)
  ultimately show False using distinct_map_appendD assms(3) by metis
qed

lemma drained_waiting:
  assumes "inv fm tree s" and "[] \<in> set (visited s)"
  shows "runs s = [] \<longleftrightarrow> waiting s = []"
proof -
  from assms(1) have "length (runs s) = length (filter (\<lambda>v. on_resolve v = Deregister) (waiting s))"
    by (simp add: inv_def inv_count_def)
  moreover have "filter (\<lambda>v. on_resolve v = Deregister) (waiting s) = waiting s"
    using waiting_nonroot [OF assms] by (simp add: filter_id_conv)
  ultimately have "length (runs s) = length (waiting s)" by simp
  then show ?thesis by (metis length_0_conv)
qed

lemma drained_all_visited:
  assumes inv: "inv fm tree s" and w: "waiting s = []" and root: "[] \<in> set (visited s)"
  shows "listing_at tree p \<noteq> None \<Longrightarrow> p \<in> set (visited s)"
proof (induction p rule: rev_induct)
  case Nil
  show ?case by (rule root)
next
  case (snoc k q)
  from snoc.prems obtain ds where ds: "listing_at tree q = Some ds" "k < length ds"
    "is_folder_node (ds ! k)"
    by (auto simp: listing_at_snoc is_folder_node_def split: option.splits if_splits node.splits)
  with snoc.IH obtain u where u: "u \<in> set (completed s)" "vpath u = q"
    by (auto simp: visited_def)
  from inv have "inv_tree tree s" by (simp add: inv_def)
  with u ds have "q @ [k] \<in> vpath ` set (tracked s)"
    unfolding inv_tree_def by (metis Un_iff set_append)
  moreover from w have "tracked s = completed s" by (simp add: waiting_def tracked_def)
  ultimately show ?case by (simp add: visited_def)
qed

section \<open>The completion barrier\<close>

text \<open>
  Claim C1. When a nested call resolves, the token registered for its folder is to be
  removed. On the drive with the empty folders \<open>A\<close> and \<open>B\<close>, the listing of \<open>A\<close>
  arrives first: \<open>runs\<close> holds the token of \<open>A\<close> and then the token of \<open>B\<close>; after the
  callback for \<open>A\<close> has run, \<open>runs\<close> still holds the token of \<open>A\<close>, the token of \<open>B\<close> is
  gone, and the call for \<open>B\<close> (position \<open>[1]\<close>) is still in flight.
\<close>

theorem first_resolve_removes_other_token:
  "run no_table [Deliver 0, Resolve 0, Deliver 0, Resolve 0]
     (makeCsv scenario_form two_folders page_load)
     = Some (after two_folders [Deliver 0, Resolve 0, Deliver 0, Resolve 0]) \<and>
   runs (after two_folders [Deliver 0, Resolve 0, Deliver 0]) = [btoa '' - A'', btoa '' - B''] \<and>
   map vpath (settled (after two_folders [Deliver 0, Resolve 0, Deliver 0])) = [[0]] \<and>
   runs (after two_folders [Deliver 0, Resolve 0, Deliver 0, Resolve 0]) = [btoa '' - A''] \<and>
   map vpath (inflight (after two_folders [Deliver 0, Resolve 0, Deliver 0, Resolve 0])) = [[1]] \<and>
   visited (after two_folders [Deliver 0, Resolve 0, Deliver 0, Resolve 0]) = [[], [0]]"
  by (simp add: run_defs ex_defs2)

text \<open>
  Claim C9. In every state of every session on the page, whatever was clicked before
  and whatever the case tables are, when the callback of a recursive call runs, the
  lookup of the promise's value \<open>undefined\<close> in \<open>runs\<close> gives \<open>-1\<close>, \<open>runs\<close> is not
  empty, and the callback removes its last element, the token registered most recently
  among those left: \<open>runs\<close> gets shorter by exactly one, whatever the tokens are.
\<close>

theorem resolve_removes_last_token:
  assumes "session up acts page_load = Some s"
    and "j < length (settled s)" and "on_resolve (settled s ! j) = Deregister"
  shows "indexOf (runs s) JUndefined = - 1 \<and> runs s \<noteq> [] \<and>
         (\<exists>s'. resolve j s = Some s' \<and> runs s' = butlast (runs s) \<and>
                Suc (length (runs s')) = length (runs s))"
proof -
  from inv_count_session [OF inv_count_page_load assms(1)] have
    "length (runs s) = length (filter (\<lambda>v. on_resolve v = Deregister) (waiting s))"
    by (simp add: inv_count_def)
  moreover from assms(2,3) have
    "settled s ! j \<in> set (filter (\<lambda>v. on_resolve v = Deregister) (waiting s))"
    by (simp add: waiting_def)
  ultimately have ne: "runs s \<noteq> []" by (metis length_0_conv empty_iff empty_set)
  obtain s' where s': "resolve j s = Some s'"
    using assms(2) by (simp add: resolve_def Let_def)
  from resolve_effect [OF s'] assms(3) have "runs s' = butlast (runs s)" by simp
  with ne s' show ?thesis by (simp add: indexOf_undefined)
qed

text \<open>On the drive with two folders of the same name the two tokens are equal; the
  listing of the second folder arrives first.\<close>

theorem resolve_removes_last_token_witness:
  "runs (after twin_folders [Deliver 0, Resolve 0, Deliver 1]) = [btoa '' - A'', btoa '' - A''] \<and>
   indexOf (runs (after twin_folders [Deliver 0, Resolve 0, Deliver 1])) JUndefined = - 1 \<and>
   (\<exists>s'. resolve 0 (after twin_folders [Deliver 0, Resolve 0, Deliver 1]) = Some s' \<and>
          runs s' = [btoa '' - A''])"
proof -
  have r: "session no_table
             [Click scenario_form twin_folders, Turn (Deliver 0), Turn (Resolve 0), Turn (Deliver 1)]
             page_load
           = Some (after twin_folders [Deliver 0, Resolve 0, Deliver 1])"
    by (simp add: run_defs ex_defs2)
  have h2: "0 < length (settled (after twin_folders [Deliver 0, Resolve 0, Deliver 1]))"
    by (simp add: run_defs ex_defs2)
  have h3: "on_resolve (settled (after twin_folders [Deliver 0, Resolve 0, Deliver 1]) ! 0) = Deregister"
    by (simp add: run_defs ex_defs2)
  have rs: "runs (after twin_folders [Deliver 0, Resolve 0, Deliver 1]) = [btoa '' - A'', btoa '' - A'']"
    by (simp add: run_defs ex_defs2)
  from resolve_removes_last_token [OF r h2 h3] rs show ?thesis by auto
qed

text \<open>
  Claim C8, as amended. In the first run on a freshly loaded page, when the interval
  callback finds \<open>runs\<close> empty and \<open>files\<close> empty, the notice \<open>could not list files\<close> is
  the one notice raised, nothing is handed to \<open>downloadCSV\<close>, and no further event can
  happen: the timer is cleared and no call is in flight.
\<close>

theorem empty_run_raises_notice:
  assumes "run up es (makeCsv fm tree page_load) = Some s" and "poll k s = Some s'"
    and "runs s = []" and "files s = []"
  shows "alerts s' = [''could not list files''] \<and> downloads s' = [] \<and>
         (\<forall>e. step up e s' = None)"
proof -
  note inv = inv_reachable [OF assms(1)]
  note e = poll_effect [OF assms(2)]
  from e have tne: "timers s \<noteq> []" by auto
  with inv have root: "[] \<in> set (visited s)"
    by (simp add: inv_def inv_globals_def visited_def)
  from inv tne have "alerts s = [] \<and> downloads s = []"
    by (simp add: inv_def inv_globals_def)
  with e assms(3,4) have a: "alerts s' = [''could not list files'']" "downloads s' = []"
    by simp_all
  from inv have "clearInterval (inter s) (timers s) = []"
    by (intro clearInterval_all) (simp add: inv_def inv_globals_def)
  with e assms(3) have t: "timers s' = []" by simp
  from drained_waiting [OF inv root] assms(3) have "waiting s = []" by simp
  with e have "inflight s' = []" "settled s' = []" by (simp_all add: waiting_def)
  with t have "step up e s' = None" for e
    by (cases e) (simp_all add: deliver_def resolve_def poll_def)
  with a show ?thesis by simp
qed

text \<open>The empty drive, on a freshly loaded page.\<close>

theorem empty_run_raises_notice_witness:
  "alerts (after [] [Deliver 0, Resolve 0, Poll 0]) = [''could not list files''] \<and>
   downloads (after [] [Deliver 0, Resolve 0, Poll 0]) = [] \<and>
   (\<forall>e. step no_table e (after [] [Deliver 0, Resolve 0, Poll 0]) = None)"
proof -
  have r: "run no_table [Deliver 0, Resolve 0] (makeCsv scenario_form [] page_load)
           = Some (after [] [Deliver 0, Resolve 0])"
    by (simp add: run_defs ex_defs2)
  have p: "poll 0 (after [] [Deliver 0, Resolve 0])
           = Some (after [] [Deliver 0, Resolve 0, Poll 0])"
    by (simp add: run_defs ex_defs2)
  have h3: "runs (after [] [Deliver 0, Resolve 0]) = []"
    by (simp add: run_defs ex_defs2)
  have h4: "files (after [] [Deliver 0, Resolve 0]) = []"
    by (simp add: run_defs ex_defs2)
  from empty_run_raises_notice [OF r p h3 h4] show ?thesis .
qed

text \<open>
  Claim C8 as stated fails on a page that has run before, since nothing empties
  \<open>files\<close>. The first run, on the drive with one image, ends with one record and a
  download. The second run, on the empty drive \<open>E\<close>, collects no record and drains: no
  notice is raised, and a document with the record of the first run is downloaded.
\<close>

theorem second_run_no_notice_counterexample:
  "run no_table [Deliver 0, Resolve 0, Poll 0]
     (makeCsv second_form [] (after one_image [Deliver 0, Resolve 0, Poll 0]))
     = Some (after_second (after one_image [Deliver 0, Resolve 0, Poll 0]) second_form []
          [Deliver 0, Resolve 0, Poll 0]) \<and>
   length (files (after one_image [Deliver 0, Resolve 0, Poll 0])) = 1 \<and>
   inflight (after one_image [Deliver 0, Resolve 0, Poll 0]) = [] \<and>
   timers (after one_image [Deliver 0, Resolve 0, Poll 0]) = [] \<and>
   files (after_second (after one_image [Deliver 0, Resolve 0, Poll 0]) second_form []
     [Deliver 0, Resolve 0]) = files (after one_image [Deliver 0, Resolve 0, Poll 0]) \<and>
   runs (after_second (after one_image [Deliver 0, Resolve 0, Poll 0]) second_form []
     [Deliver 0, Resolve 0]) = [] \<and>
   alerts (after_second (after one_image [Deliver 0, Resolve 0, Poll 0]) second_form []
     [Deliver 0, Resolve 0, Poll 0]) = [] \<and>
   length (downloads (after_second (after one_image [Deliver 0, Resolve 0, Poll 0]) second_form []
     [Deliver 0, Resolve 0, Poll 0])) = 2"
  by (simp add: run_defs ex_defs2)

text \<open>
  Claim C2, as amended. In the first run on a freshly loaded page, once the root call
  has resolved (from then on the interval callback consults the barrier), in every
  state, on any finite tree, \<open>runs\<close> is empty if and only if every folder node of the
  tree has been visited exactly once; a visit counts when its call has resolved and its
  callback has run. A listing that never arrives or a call that throws leaves its
  folder unvisited.
\<close>

theorem barrier_empty_iff_all_visited:
  assumes "run up es (makeCsv fm tree page_load) = Some s" and "[] \<in> set (visited s)"
  shows "runs s = [] \<longleftrightarrow> (\<forall>p. listing_at tree p \<noteq> None \<longrightarrow> count_list (visited s) p = 1)"
proof
  note inv = inv_reachable [OF assms(1)]
  assume "runs s = []"
  with drained_waiting [OF inv assms(2)] have w: "waiting s = []" by simp
  from inv have "distinct (visited s)"
    by (simp add: inv_def inv_paths_def tracked_def visited_def)
  with drained_all_visited [OF inv w assms(2)]
  show "\<forall>p. listing_at tree p \<noteq> None \<longrightarrow> count_list (visited s) p = 1"
    by (simp add: count_list_distinct)
next
  note inv = inv_reachable [OF assms(1)]
  assume all: "\<forall>p. listing_at tree p \<noteq> None \<longrightarrow> count_list (visited s) p = 1"
  have "waiting s = []"
  proof (rule ccontr)
    assume "waiting s \<noteq> []"
    then obtain w where w: "w \<in> set (waiting s)" by (cases "waiting s") auto
    then have "w \<in> set (tracked s)" by (auto simp: waiting_def tracked_def)
    with inv have "listing_at tree (vpath w) \<noteq> None" by (simp add: inv_def inv_tree_def)
    with all have "count_list (visited s) (vpath w) = 1" by simp
    then have "vpath w \<in> set (visited s)" by (metis count_list_0_iff zero_neq_one)
    then obtain u where u: "u \<in> set (completed s)" "vpath u = vpath w"
      by (auto simp: visited_def)
    from inv have "distinct (map vpath (waiting s @ completed s))"
      by (auto simp: inv_def inv_paths_def tracked_def waiting_def)
    from distinct_map_appendD [OF this w u(1)] u(2) show False by simp
  qed
  with drained_waiting [OF inv assms(2)] show "runs s = []" by simp
qed

text \<open>The scenario on a freshly loaded page, after both listings have arrived: the drive
  root and the folder \<open>A\<close> are its folder nodes.\<close>

theorem barrier_empty_iff_all_visited_witness:
  "runs (after scenario_tree [Deliver 0, Resolve 0, Deliver 0, Resolve 0]) = [] \<and>
   count_list (visited (after scenario_tree [Deliver 0, Resolve 0, Deliver 0, Resolve 0])) [] = 1 \<and>
   count_list (visited (after scenario_tree [Deliver 0, Resolve 0, Deliver 0, Resolve 0])) [0] = 1"
proof -
  have r: "run no_table [Deliver 0, Resolve 0, Deliver 0, Resolve 0]
             (makeCsv scenario_form scenario_tree page_load)
           = Some (after scenario_tree [Deliver 0, Resolve 0, Deliver 0, Resolve 0])"
    by (simp add: run_defs ex_defs2)
  have v: "[] \<in> set (visited (after scenario_tree [Deliver 0, Resolve 0, Deliver 0, Resolve 0]))"
    by (simp add: run_defs ex_defs2)
  have e: "runs (after scenario_tree [Deliver 0, Resolve 0, Deliver 0, Resolve 0]) = []"
    by (simp add: run_defs ex_defs2)
  have l: "listing_at scenario_tree [] \<noteq> None" "listing_at scenario_tree [0] \<noteq> None"
    by (simp_all add: ex_defs)
  from barrier_empty_iff_all_visited [OF r v] e l show ?thesis by simp
qed

text \<open>
  Claim C2 as stated fails in two ways. In the state in which \<open>makeCsv\<close> has just sent
  the root call, which registers no token, \<open>runs\<close> is empty and the drive root, a
  folder node, has not been visited. And on a page that has run before, \<open>runs\<close> keeps
  the tokens of that run: the listings of the folders \<open>A\<close> and \<open>B\<close> of the first drive
  have not arrived when the empty drive \<open>E\<close> is traversed; the call for \<open>E\<close>, the only
  folder node of that drive, has completed, and \<open>runs\<close> holds two tokens.
\<close>

theorem barrier_empty_at_start_counterexample:
  "runs (makeCsv scenario_form scenario_tree page_load) = [] \<and>
   listing_at scenario_tree [] \<noteq> None \<and>
   count_list (visited (makeCsv scenario_form scenario_tree page_load)) [] = 0 \<and>
   run no_table [Deliver 2, Resolve 0]
     (makeCsv second_form [] (after two_folders [Deliver 0, Resolve 0]))
     = Some (after_second (after two_folders [Deliver 0, Resolve 0]) second_form []
          [Deliver 2, Resolve 0]) \<and>
   map driveId (completed (after_second (after two_folders [Deliver 0, Resolve 0]) second_form []
     [Deliver 2, Resolve 0])) = [''R'', ''E''] \<and>
   map driveId (inflight (after_second (after two_folders [Deliver 0, Resolve 0]) second_form []
     [Deliver 2, Resolve 0])) = [''F1'', ''F2''] \<and>
   runs (after_second (after two_folders [Deliver 0, Resolve 0]) second_form []
     [Deliver 2, Resolve 0]) = [btoa '' - A'', btoa '' - B'']"
  by (simp add: run_defs ex_defs2)

section \<open>The category path\<close>

text \<open>
  Claim C5. The category path of a record is to end with the chain of folder names down
  to the parent folder. On the drive of the scenario, the second record is the one of
  \<open>clip.mp4\<close> in the folder \<open>A\<close>: its category path is the one of \<open>img.jpg\<close> at the
  drive root, and the path \<open> - A\<close> stands in its owner column, since the recursive call
  of line 36 passes the new folder path in the place of \<open>ownerId\<close>.
\<close>

theorem nested_category_lacks_folder_path:
  "run no_table [Deliver 0, Resolve 0, Deliver 0, Resolve 0]
     (makeCsv scenario_form scenario_tree page_load)
     = Some (after scenario_tree [Deliver 0, Resolve 0, Deliver 0, Resolve 0]) \<and>
   length (files (after scenario_tree [Deliver 0, Resolve 0, Deliver 0, Resolve 0])) = 2 \<and>
   files (after scenario_tree [Deliver 0, Resolve 0, Deliver 0, Resolve 0]) ! 0 ! 0 = JStr ''img.jpg'' \<and>
   files (after scenario_tree [Deliver 0, Resolve 0, Deliver 0, Resolve 0]) ! 0 ! 6
     = JStr ''Cat>site>channels>Drive '' \<and>
   files (after scenario_tree [Deliver 0, Resolve 0, Deliver 0, Resolve 0]) ! 1 ! 0 = JStr ''clip.mp4'' \<and>
   files (after scenario_tree [Deliver 0, Resolve 0, Deliver 0, Resolve 0]) ! 1 ! 6
     = JStr ''Cat>site>channels>Drive '' \<and>
   files (after scenario_tree [Deliver 0, Resolve 0, Deliver 0, Resolve 0]) ! 1 ! 8 = JStr '' - A''"
  by (simp add: run_defs ex_defs2)

text \<open>On every drive, in the first run on a freshly loaded page, every call has the empty
  folder path, and every record has the category path of the drive root.\<close>

lemma process_file_category:
  assumes "process_file up v k (Node file children) s = Inr s'"
  shows "\<exists>fs. files s' = files s @ fs \<and>
           (\<forall>f\<in>set fs. f ! 6 = JStr (categoryName v @ ''>'' @ driveName v @ '' '' @ folderPath v))"
  using assms
  by (auto simp: process_file_def Let_def media_record_def split: if_splits sum.splits list.splits)

lemma forEach_files_category:
  assumes "forEach_files up v k ns s = (s', r)"
  shows "\<exists>fs. files s' = files s @ fs \<and>
           (\<forall>f\<in>set fs. f ! 6 = JStr (categoryName v @ ''>'' @ driveName v @ '' '' @ folderPath v))"
  using assms
proof (induction ns arbitrary: k s)
  case Nil
  then show ?case by simp
next
  case (Cons n ns)
  obtain fl ch where n: "n = Node fl ch" by (cases n)
  show ?case
  proof (cases "process_file up v k n s")
    case (Inl e)
    with Cons.prems show ?thesis by simp
  next
    case (Inr s1)
    with Cons.prems have "forEach_files up v (Suc k) ns s1 = (s', r)" by simp
    from Cons.IH [OF this] obtain fs where fs: "files s' = files s1 @ fs"
      "\<forall>f\<in>set fs. f ! 6 = JStr (categoryName v @ ''>'' @ driveName v @ '' '' @ folderPath v)"
      by blast
    from Inr n process_file_category [of up v k fl ch s s1] obtain fs1 where
      fs1: "files s1 = files s @ fs1"
      "\<forall>f\<in>set fs1. f ! 6 = JStr (categoryName v @ ''>'' @ driveName v @ '' '' @ folderPath v)"
      by auto
    from fs fs1 show ?thesis
      by (intro exI [of _ "fs1 @ fs"]) auto
  qed
qed

lemma inv_category_deliver:
  assumes "inv_category fm s" and "deliver up i s = Some s'"
  shows "inv_category fm s'"
proof -
  define v where "v = inflight s ! i"
  define s1 where "s1 = s\<lparr>inflight := remove_nth i (inflight s)\<rparr>"
  from assms(2) have i: "i < length (inflight s)"
    by (simp add: deliver_def split: if_splits)
  then have vin: "v \<in> set (inflight s)" by (simp add: v_def)
  obtain s2 r where fe: "forEach_files up v 0 (response v) s1 = (s2, r)"
    by (cases "forEach_files up v 0 (response v) s1")
  from assms(2) i fe have s': "files s' = files s2" "inflight s' = inflight s2"
    by (auto simp: deliver_def getDriveFiles_def Let_def v_def s1_def split: option.splits)
  from forEach_files_category [OF fe] obtain fs where fs: "files s2 = files s @ fs"
    "\<forall>f\<in>set fs. f ! 6 = JStr (categoryName v @ ''>'' @ driveName v @ '' '' @ folderPath v)"
    by (auto simp: s1_def)
  from forEach_files_effect [OF fe] obtain m where
    m: "inflight s2 = remove_nth i (inflight s) @ spawned v 0 (take m (response v))"
    by (auto simp: s1_def)
  from assms(1) vin have ctx: "folderPath v = []" "driveName v = drive_name fm"
    "categoryName v = root_category fm @ ''>site>channels''"
    by (simp_all add: inv_category_def)
  have "folderPath w = [] \<and> driveName w = drive_name fm \<and>
        categoryName w = root_category fm @ ''>site>channels''" if "w \<in> set (inflight s')" for w
  proof -
    from that s' m set_remove_nth [OF i]
    consider "w \<in> set (inflight s)" | "w \<in> set (spawned v 0 (take m (response v)))" by auto
    then show ?thesis
    proof cases
      case 1
      with assms(1) show ?thesis by (simp add: inv_category_def)
    next
      case 2
      with ctx show ?thesis by (auto simp: spawned_mem spawn_def)
    qed
  qed
  moreover have "\<forall>f\<in>set (files s').
      f ! 6 = JStr (root_category fm @ ''>site>channels>'' @ drive_name fm @ '' '')"
    using assms(1) fs ctx s' by (auto simp: inv_category_def)
  ultimately show ?thesis by (simp add: inv_category_def)
qed

lemma inv_category_step:
  assumes "inv_category fm s" and "step up e s = Some s'"
  shows "inv_category fm s'"
proof (cases e)
  case (Deliver i)
  with assms show ?thesis by (simp add: inv_category_deliver)
next
  case (Resolve j)
  with assms resolve_effect [of j s s'] show ?thesis by (simp add: inv_category_def)
next
  case (Poll k)
  with assms poll_effect [of k s s'] show ?thesis
    by (auto simp: inv_category_def split: if_splits)
qed

lemma inv_category_run: "inv_category fm s \<Longrightarrow> run up es s = Some s' \<Longrightarrow> inv_category fm s'"
proof (induction es arbitrary: s)
  case Nil
  then show ?case by simp
next
  case (Cons e es)
  then show ?case by (auto split: option.splits dest: inv_category_step)
qed

lemma every_category_is_the_root_category:
  assumes "run up es (makeCsv fm tree page_load) = Some s" and "f \<in> set (files s)"
  shows "f ! 6 = JStr (root_category fm @ ''>site>channels>'' @ drive_name fm @ '' '')"
proof -
  have "inv_category fm (makeCsv fm tree page_load)"
    by (simp add: inv_category_def makeCsv_def root_visit_def page_load_def)
  from inv_category_run [OF this assms(1)] assms(2) show ?thesis
    by (simp add: inv_category_def)
qed

section \<open>The shape of the document\<close>

lemma qstate_append: "qstate q (x @ y) = qstate (qstate q x) y"
  by (induction x arbitrary: q) auto

lemma top_count_append:
  "top_count sep q (x @ y) = top_count sep q x + top_count sep (qstate q x) y"
  by (induction x arbitrary: q) auto

lemma length_top_split: "length (top_split sep q cur x) = Suc (top_count sep q x)"
  by (induction x arbitrary: q cur) auto

lemma top_split_closed_prefix:
  "top_count sep q x = 0 \<Longrightarrow>
     top_split sep q cur (x @ rest) = top_split sep (qstate q x) (cur @ x) rest"
  by (induction x arbitrary: q cur) (auto split: if_splits)

lemma qstate_plain: "dquote \<notin> set x \<Longrightarrow> qstate q x = q"
  by (induction x) auto

lemma top_count_plain: "dquote \<notin> set x \<Longrightarrow> top_count sep False x = count_list x sep"
  by (induction x) auto

lemma top_count_absent: "dquote \<notin> set x \<Longrightarrow> sep \<notin> set x \<Longrightarrow> top_count sep q x = 0"
  by (induction x) auto

lemma escaped_closed:
  "sep \<noteq> dquote \<Longrightarrow>
     top_count sep True (escapeDoubleQuotes v) = 0 \<and> qstate True (escapeDoubleQuotes v)"
  by (induction v) (auto simp: escapeDoubleQuotes_def)

lemma field_text_closed:
  assumes "quote_safe x" and "sep = comma \<or> sep = newline"
  shows "top_count sep False (elem_text (csvValue x)) = 0 \<and> \<not> qstate False (elem_text (csvValue x))"
proof (cases x)
  case JUndefined
  then show ?thesis by simp
next
  case (JStr v)
  from assms(2) have sd: "sep \<noteq> dquote" by auto
  show ?thesis
  proof (cases "comma \<in> set v \<or> newline \<in> set v")
    case True
    then have "elem_text (csvValue x) = dquote # escapeDoubleQuotes v @ [dquote]"
      using JStr by simp
    then show ?thesis
      using escaped_closed [OF sd, of v] sd
      by (simp add: top_count_append qstate_append)
  next
    case False
    with assms(1) JStr have "dquote \<notin> set v" by simp
    with False JStr assms(2) show ?thesis
      by (auto simp: top_count_absent qstate_plain)
  qed
qed

lemma join_closed:
  assumes "sep \<noteq> dquote" and "\<forall>t\<in>set ts. top_count sep False t = 0 \<and> \<not> qstate False t"
  shows "\<not> qstate False (js_join '','' ts) \<and>
         top_count sep False (js_join '','' ts) = (if sep = comma then length ts - 1 else 0)"
  using assms(2)
proof (induction "'',''" ts rule: js_join.induct)
  case 1
  then show ?case by simp
next
  case (2 x)
  then show ?case by simp
next
  case (3 x y ys)
  then show ?case
    using assms(1) by (auto simp: top_count_append qstate_append)
qed

lemma replicate_comma_count:
  "\<not> qstate False (replicate k comma) \<and> top_count comma False (replicate k comma) = k \<and>
   top_count newline False (replicate k comma) = 0"
  by (induction k) auto

lemma line_body_closed:
  assumes "list_all quote_safe f" and "length f = 10"
  shows "\<not> qstate False (arrayToCSVLine f @ replicate k comma) \<and>
         top_count comma False (arrayToCSVLine f @ replicate k comma) = 9 + k \<and>
         top_count newline False (arrayToCSVLine f @ replicate k comma) = 0"
proof -
  let ?ts = "map elem_text (map csvValue f)"
  have c: "\<forall>t\<in>set ?ts. top_count comma False t = 0 \<and> \<not> qstate False t"
    using assms(1) field_text_closed [of _ comma] by (auto simp: list_all_iff)
  have n: "\<forall>t\<in>set ?ts. top_count newline False t = 0 \<and> \<not> qstate False t"
    using assms(1) field_text_closed [of _ newline] by (auto simp: list_all_iff)
  from join_closed [OF _ c] join_closed [OF _ n] assms(2) replicate_comma_count [of k]
  show ?thesis
    by (simp add: arrayToCSVLine_def top_count_append qstate_append)
qed

lemma lines_of_concat:
  assumes "\<forall>b\<in>set bs. top_count newline False b = 0 \<and> \<not> qstate False b"
  shows "top_split newline False [] (concat (map (\<lambda>b. b @ [newline]) bs)) = bs @ [[]]"
  using assms
proof (induction bs)
  case Nil
  then show ?case by simp
next
  case (Cons b bs)
  then have b: "top_count newline False b = 0" "\<not> qstate False b" by simp_all
  have "top_split newline False [] (b @ newline # concat (map (\<lambda>b. b @ [newline]) bs))
        = top_split newline False b (newline # concat (map (\<lambda>b. b @ [newline]) bs))"
    using top_split_closed_prefix [OF b(1), of "[]"] b(2) by simp
  with Cons show ?case by simp
qed

lemma split_chr_nonempty: "split_chr c s \<noteq> []"
  by (induction s) (auto split: list.splits)

lemma split_chr_no_sep: "w \<in> set (split_chr c s) \<Longrightarrow> c \<notin> set w"
  by (induction s arbitrary: w) (auto split: if_splits list.splits)

lemma split_chr_concat_subset: "set (concat (split_chr c s)) \<subseteq> set s"
proof (induction s)
  case Nil
  then show ?case by simp
next
  case (Cons x xs)
  show ?case
  proof (cases "split_chr c xs")
    case Nil
    then show ?thesis by simp
  next
    case (Cons w ws)
    with Cons.IH show ?thesis by auto
  qed
qed

lemma split_chr_subset: "w \<in> set (split_chr c s) \<Longrightarrow> set w \<subseteq> set s"
  using split_chr_concat_subset [of c s] by auto

lemma join_plain:
  assumes "\<forall>t\<in>set ts. dquote \<notin> set t \<and> newline \<notin> set t \<and> count_list t comma = 0"
  shows "dquote \<notin> set (js_join '','' ts) \<and> newline \<notin> set (js_join '','' ts) \<and>
         count_list (js_join '','' ts) comma = length ts - 1"
  using assms
  by (induction "'',''" ts rule: js_join.induct) auto

lemma header_body:
  assumes "dquote \<notin> set names" and "newline \<notin> set names"
  defines "hb \<equiv> headerLine @ '','' @ js_join '','' (map (\<lambda>f. ''metadataField_'' @ f) (split_chr comma names))"
  shows "dquote \<notin> set hb \<and> newline \<notin> set hb \<and>
         count_list hb comma = 9 + length (split_chr comma names)"
proof -
  let ?ts = "map (\<lambda>f. ''metadataField_'' @ f) (split_chr comma names)"
  have "\<forall>t\<in>set ?ts. dquote \<notin> set t \<and> newline \<notin> set t \<and> count_list t comma = 0"
    using assms(1,2) split_chr_subset [of _ comma names] split_chr_no_sep [of _ comma names]
    by (auto simp: count_list_0_iff)
  from join_plain [OF this] have j: "dquote \<notin> set (js_join '','' ?ts)"
    "newline \<notin> set (js_join '','' ?ts)"
    "count_list (js_join '','' ?ts) comma = length (split_chr comma names) - 1"
    by simp_all
  have "length (split_chr comma names) \<ge> 1"
    using split_chr_nonempty [of comma names] by (cases "split_chr comma names") auto
  with j show ?thesis
    by (simp add: hb_def headerLine_def)
qed

lemma csv_document_lines:
  assumes "list_all (list_all quote_safe) fs" and "\<forall>f\<in>set fs. length f = 10"
    and "dquote \<notin> set names" and "newline \<notin> set names"
  shows "csv_lines (csv_document names fs) =
           (headerLine @ '','' @ js_join '','' (map (\<lambda>f. ''metadataField_'' @ f) (split_chr comma names)))
           # map (\<lambda>f. arrayToCSVLine f @ replicate (length (split_chr comma names)) comma) fs"
proof -
  let ?k = "length (split_chr comma names)"
  let ?hb = "headerLine @ '','' @ js_join '','' (map (\<lambda>f. ''metadataField_'' @ f) (split_chr comma names))"
  let ?bodies = "map (\<lambda>f. arrayToCSVLine f @ replicate ?k comma) fs"
  have doc: "csv_document names fs = concat (map (\<lambda>b. b @ [newline]) (?hb # ?bodies))"
    by (simp add: csv_document_def Let_def csv_line_def [abs_def] comp_def)
  from header_body [OF assms(3,4)] have "top_count newline False ?hb = 0 \<and> \<not> qstate False ?hb"
    by (simp add: top_count_absent qstate_plain)
  moreover have "\<forall>b\<in>set ?bodies. top_count newline False b = 0 \<and> \<not> qstate False b"
    using assms(1,2) line_body_closed by (auto simp: list_all_iff)
  ultimately have "\<forall>b\<in>set (?hb # ?bodies). top_count newline False b = 0 \<and> \<not> qstate False b"
    by simp
  from lines_of_concat [OF this] show ?thesis
    by (simp add: csv_lines_def doc Let_def butlast_append del: concat.simps map_append)
qed

section \<open>The description of a record\<close>

text \<open>Every call is a root call or visits a folder item of a listing that has arrived.\<close>

lemma named_mono: "named s v \<Longrightarrow> set (delivered s) \<subseteq> set (delivered s') \<Longrightarrow> named s' v"
  unfolding named_def by blast

lemma inv_names_deliver:
  assumes "inv_names s" and "deliver up i s = Some s'"
  shows "inv_names s'"
proof -
  define v where "v = inflight s ! i"
  from assms(2) obtain m where i: "i < length (inflight s)" and "m \<le> length (response v)"
    and infl: "inflight s' = remove_nth i (inflight s) @ spawned v 0 (take m (response v))"
    and "length (runs s') = length (runs s) + length (spawned v 0 (take m (response v)))"
    and "\<exists>fs. files s' = files s @ fs \<and> (\<forall>f\<in>set fs. length f = 10)"
    and same: "completed s' = completed s" "inter s' = inter s" "timers s' = timers s"
      "alerts s' = alerts s" "downloads s' = downloads s"
    and out: "(m = length (response v) \<and> settled s' = settled s @ [v] \<and> rejected s' = rejected s)
       \<or> (settled s' = settled s \<and> rejected s' = rejected s @ [v])"
    unfolding v_def by (rule deliver_effect)
  from i have vin: "v \<in> set (inflight s)" by (simp add: v_def)
  from out same(1) have dl: "set (delivered s') = insert v (set (delivered s))"
    by (auto simp: delivered_def)
  from set_remove_nth [OF i] have "set (remove_nth i (inflight s)) \<subseteq> set (inflight s)"
    by auto
  with out same(1) vin
  have tr: "set (tracked s') \<subseteq> set (tracked s) \<union> set (spawned v 0 (take m (response v)))"
    by (auto simp: tracked_def infl)
  have "named s' w" if "w \<in> set (tracked s')" for w
  proof -
    from that tr consider "w \<in> set (tracked s)" | "w \<in> set (spawned v 0 (take m (response v)))"
      by blast
    then show ?thesis
    proof cases
      case 1
      with assms(1) have "named s w" by (simp add: inv_names_def)
      then show ?thesis by (rule named_mono) (use dl in auto)
    next
      case 2
      then obtain j fl ch where j: "j < length (take m (response v))"
        "take m (response v) ! j = Node fl ch" "mimeType fl = folder_mime"
        "w = spawn v (0 + j) fl ch (folderPath v @ '' - '' @ fileName fl)"
        unfolding spawned_mem by blast
      from j(1,2) have "Node fl ch \<in> set (response v)"
        by (metis nth_mem in_set_takeD)
      moreover from j(3,4) have "visits_folder w (Node fl ch)"
        by (simp add: visits_folder_def spawn_def)
      ultimately show ?thesis using dl by (auto simp: named_def)
    qed
  qed
  then show ?thesis by (simp add: inv_names_def)
qed

lemma inv_names_resolve:
  assumes "inv_names s" and "resolve j s = Some s'"
  shows "inv_names s'"
proof -
  note e = resolve_effect [OF assms(2)]
  from e have j: "j < length (settled s)" by simp
  from e set_remove_nth [OF j] have "set (tracked s') = set (tracked s)"
    "set (delivered s') = set (delivered s)"
    by (auto simp: tracked_def delivered_def)
  with assms(1) show ?thesis by (simp add: inv_names_def named_def)
qed

lemma inv_names_poll:
  assumes "inv_names s" and "poll k s = Some s'"
  shows "inv_names s'"
proof -
  from poll_effect [OF assms(2)] have "tracked s' = tracked s" "delivered s' = delivered s"
    by (simp_all add: tracked_def delivered_def)
  with assms(1) show ?thesis by (simp add: inv_names_def named_def)
qed

lemma inv_names_makeCsv: "inv_names s \<Longrightarrow> inv_names (makeCsv fm tree s)"
  by (auto simp: inv_names_def named_def makeCsv_def tracked_def delivered_def)

lemma inv_names_session:
  "inv_names s \<Longrightarrow> session up acts s = Some s' \<Longrightarrow> inv_names s'"
proof (induction acts arbitrary: s)
  case Nil
  then show ?case by simp
next
  case (Cons a acts)
  show ?case
  proof (cases a)
    case (Click fm tree)
    with Cons.prems(2) have "session up acts (makeCsv fm tree s) = Some s'" by simp
    from Cons.IH [OF inv_names_makeCsv [OF Cons.prems(1)] this] show ?thesis .
  next
    case (Turn e)
    with Cons.prems(2) obtain s1 where s1: "step up e s = Some s1" "session up acts s1 = Some s'"
      by (auto split: option.splits)
    from s1(1) Cons.prems(1) have "inv_names s1"
      by (cases e) (auto intro: inv_names_deliver inv_names_resolve inv_names_poll)
    from Cons.IH [OF this s1(2)] show ?thesis .
  qed
qed

lemma inv_names_page_load: "inv_names page_load"
  by (simp add: inv_names_def page_load_def tracked_def)

lemma inv_records_deliver:
  assumes "inv_records up s" and "deliver up i s = Some s'"
  shows "inv_records up s'"
proof -
  define v where "v = inflight s ! i"
  define s1 where "s1 = s\<lparr>inflight := remove_nth i (inflight s)\<rparr>"
  from assms(2) have i: "i < length (inflight s)"
    by (simp add: deliver_def split: if_splits)
  obtain s2 r where fe: "forEach_files up v 0 (response v) s1 = (s2, r)"
    by (cases "forEach_files up v 0 (response v) s1")
  from assms(2) i fe have s': "files s' = files s2"
    "s' = (case r of None \<Rightarrow> s2\<lparr>settled := settled s2 @ [v]\<rparr>
                  | Some e \<Rightarrow> s2\<lparr>rejected := rejected s2 @ [v]\<rparr>)"
    by (auto simp: deliver_def getDriveFiles_def Let_def v_def s1_def split: option.splits)
  from forEach_files_effect [OF fe] have same: "settled s2 = settled s" "completed s2 = completed s"
    "rejected s2 = rejected s"
    by (auto simp: s1_def)
  from s'(2) same have dl: "set (delivered s') = insert v (set (delivered s))"
    by (cases r) (auto simp: delivered_def)
  from forEach_files_records [OF fe] obtain rs where rs: "files s2 = files s @ rs"
    "map Some rs = map (record_for up v) (filter qualifies (takeWhile (\<lambda>n. \<not> throws n) (response v)))"
    by (auto simp: s1_def)
  have "\<exists>u\<in>set (delivered s'). \<exists>n\<in>set (response u). record_for up u n = Some f"
    if "f \<in> set (files s')" for f
  proof -
    from that s'(1) rs(1) consider "f \<in> set (files s)" | "f \<in> set rs" by auto
    then show ?thesis
    proof cases
      case 1
      with assms(1) dl show ?thesis unfolding inv_records_def by blast
    next
      case 2
      then have "Some f \<in> set (map Some rs)" by simp
      with rs(2) obtain n where n: "n \<in> set (takeWhile (\<lambda>n. \<not> throws n) (response v))"
        "record_for up v n = Some f"
        by auto
      from n(1) have "n \<in> set (response v)" by (rule set_takeWhileD [THEN conjunct1])
      with n(2) dl show ?thesis by blast
    qed
  qed
  then show ?thesis by (simp add: inv_records_def)
qed

lemma inv_records_resolve:
  assumes "inv_records up s" and "resolve j s = Some s'"
  shows "inv_records up s'"
proof -
  note e = resolve_effect [OF assms(2)]
  from e have j: "j < length (settled s)" by simp
  from e set_remove_nth [OF j] have "files s' = files s" "set (delivered s') = set (delivered s)"
    by (auto simp: delivered_def)
  with assms(1) show ?thesis by (simp add: inv_records_def)
qed

lemma inv_records_poll:
  assumes "inv_records up s" and "poll k s = Some s'"
  shows "inv_records up s'"
proof -
  from poll_effect [OF assms(2)] have "files s' = files s" "delivered s' = delivered s"
    by (simp_all add: delivered_def)
  with assms(1) show ?thesis by (simp add: inv_records_def)
qed

lemma inv_records_makeCsv: "inv_records up s \<Longrightarrow> inv_records up (makeCsv fm tree s)"
  by (simp add: inv_records_def makeCsv_def delivered_def)

lemma inv_records_session:
  "inv_records up s \<Longrightarrow> session up acts s = Some s' \<Longrightarrow> inv_records up s'"
proof (induction acts arbitrary: s)
  case Nil
  then show ?case by simp
next
  case (Cons a acts)
  show ?case
  proof (cases a)
    case (Click fm tree)
    with Cons.prems(2) have "session up acts (makeCsv fm tree s) = Some s'" by simp
    from Cons.IH [OF inv_records_makeCsv [OF Cons.prems(1)] this] show ?thesis .
  next
    case (Turn e)
    with Cons.prems(2) obtain s1 where s1: "step up e s = Some s1" "session up acts s1 = Some s'"
      by (auto split: option.splits)
    from s1(1) Cons.prems(1) have "inv_records up s1"
      by (cases e) (auto intro: inv_records_deliver inv_records_resolve inv_records_poll)
    from Cons.IH [OF this s1(2)] show ?thesis .
  qed
qed

lemma inv_records_page_load: "inv_records up page_load"
  by (simp add: inv_records_def page_load_def)

text \<open>In the first run on a freshly loaded page, the folder name of a call is the name that
  the folder at its position has in the tree.\<close>

lemma first_run_folder_name:
  assumes "run up es (makeCsv fm tree page_load) = Some s" and "v \<in> set (inflight s)"
  shows "folderName v = folder_name_at tree (vpath v)"
  using inv_reachable [OF assms(1)] assms(2) by (simp add: inv_def inv_tree_def)

text \<open>A record is created by the callback of \<open>forEach\<close> only, from the item and its first
  owner.\<close>

lemma process_file_creates:
  assumes "process_file up v k (Node file children) s0 = Inr s1" and "files s1 \<noteq> files s0"
  shows "\<exists>ow rest mt. owners file = ow # rest \<and>
           files s1 = files s0 @ [media_record v file ow mt]"
  using assms
  by (auto simp: process_file_def Let_def split: if_splits sum.splits list.splits)

text \<open>The text of a wrapped value reads as one field on one line.\<close>

lemma wrapped_reads_as_one_field:
  "csv_fields ([dquote] @ escapeDoubleQuotes d @ [dquote]) = [[dquote] @ escapeDoubleQuotes d @ [dquote]] \<and>
   csv_lines ([dquote] @ escapeDoubleQuotes d @ [dquote]) = [[dquote] @ escapeDoubleQuotes d @ [dquote]]"
proof -
  have c: "top_count sep False ([dquote] @ escapeDoubleQuotes d) = 0"
    "qstate False ([dquote] @ escapeDoubleQuotes d)" if "sep \<noteq> dquote" for sep
    using escaped_closed [OF that, of d] by simp_all
  have "top_split sep False [] (([dquote] @ escapeDoubleQuotes d) @ [dquote])
        = [[dquote] @ escapeDoubleQuotes d @ [dquote]]" if "sep \<noteq> dquote" for sep
    using top_split_closed_prefix [OF c(1) [OF that], of "[]" "[dquote]"] c(2) [OF that]
    by simp
  from this [of comma] this [of newline] show ?thesis
    by (simp add: csv_fields_def csv_lines_def)
qed

lemma arrayToCSVLine_second:
  assumes "length r \<ge> 3"
  shows "arrayToCSVLine r = elem_text (csvValue (r ! 0)) @ '','' @ elem_text (csvValue (r ! 1))
           @ '','' @ js_join '','' (map elem_text (map csvValue (drop 2 r)))"
proof -
  from assms obtain a b c rest where "r = a # b # c # rest"
    by (cases r; cases "tl r"; cases "tl (tl r)") auto
  then show ?thesis by (simp add: arrayToCSVLine_def)
qed

lemma csv_document_split:
  "csv_document names (fs1 @ f # fs2) =
     csv_document names fs1 @ arrayToCSVLine f @ replicate (length (split_chr comma names)) comma
       @ [newline] @ concat (map (csv_line (length (split_chr comma names))) fs2)"
  by (simp add: csv_document_def csv_line_def Let_def)

text \<open>
  Claim C10. In every state of every session on the page, every record \<open>f\<close> in \<open>files\<close>
  was created for an item \<open>n\<close> of a listing that has arrived, by the call \<open>v\<close> that got the
  listing. Its second value is \<open>By\<close>, the display name of the item's first owner, \<open>in\<close>,
  the folder name of the call, a full stop, a space, a newline, and the item's
  description (empty if absent). The call is a root call sent by \<open>makeCsv\<close>, with the
  empty folder name, or it visits a folder item of a listing that has arrived and has
  the name of that item: the folder name is the name of the folder that lists the item.
  The text contains a newline; \<open>arrayToCSVLine\<close> emits the record as its first value, a
  comma, the text wrapped in double quotes with every double quote of the text doubled,
  a comma, and the other values; the wrapped text reads as one field on one line; and
  the document of \<open>files\<close> has this row, followed by the metadata commas and a newline,
  after the lines of the records before it.
\<close>

theorem record_description:
  assumes "session up acts page_load = Some s" and "f \<in> set (files s)"
  shows "\<exists>v n ow rest mt d.
           v \<in> set (delivered s) \<and> n \<in> set (response v) \<and>
           ((\<exists>fm tree. v = root_visit fm tree \<and> folderName v = []) \<or>
            (\<exists>u\<in>set (delivered s). \<exists>m\<in>set (response u). visits_folder v m)) \<and>
           owners (node_entry n) = ow # rest \<and>
           f = media_record v (node_entry n) ow mt \<and>
           d = ''By '' @ displayName ow @ '' in '' @ folderName v @ ''. '' @ [newline]
               @ (case description (node_entry n) of None \<Rightarrow> [] | Some t \<Rightarrow> t) \<and>
           f ! 1 = JStr d \<and> newline \<in> set d \<and>
           arrayToCSVLine f =
             elem_text (csvValue (f ! 0)) @ '','' @ [dquote] @ escapeDoubleQuotes d @ [dquote]
             @ '','' @ js_join '','' (map elem_text (map csvValue (drop 2 f))) \<and>
           csv_fields ([dquote] @ escapeDoubleQuotes d @ [dquote])
             = [[dquote] @ escapeDoubleQuotes d @ [dquote]] \<and>
           csv_lines ([dquote] @ escapeDoubleQuotes d @ [dquote])
             = [[dquote] @ escapeDoubleQuotes d @ [dquote]] \<and>
           (\<exists>fs1 fs2. files s = fs1 @ f # fs2 \<and>
              (\<forall>names. csv_document names (files s) =
                 csv_document names fs1 @ arrayToCSVLine f
                   @ replicate (length (split_chr comma names)) comma @ [newline]
                   @ concat (map (csv_line (length (split_chr comma names))) fs2)))"
proof -
  from inv_records_session [OF inv_records_page_load assms(1)] assms(2)
  obtain v n where v: "v \<in> set (delivered s)" and n: "n \<in> set (response v)"
    and rf: "record_for up v n = Some f"
    unfolding inv_records_def by blast
  from v have "v \<in> set (tracked s)" by (auto simp: delivered_def tracked_def)
  with inv_names_session [OF inv_names_page_load assms(1)]
  have "named s v" by (simp add: inv_names_def)
  then have nm: "(\<exists>fm tree. v = root_visit fm tree \<and> folderName v = []) \<or>
            (\<exists>u\<in>set (delivered s). \<exists>m\<in>set (response u). visits_folder v m)"
    by (auto simp: named_def root_visit_def)
  from rf obtain ow rest mt where o: "owners (node_entry n) = ow # rest"
    and f: "f = media_record v (node_entry n) ow mt"
    by (auto simp: record_for_def split: list.splits sum.splits)
  define d where "d = ''By '' @ displayName ow @ '' in '' @ folderName v @ ''. '' @ [newline]
               @ (case description (node_entry n) of None \<Rightarrow> [] | Some t \<Rightarrow> t)"
  have r1: "f ! 1 = JStr d" "length f \<ge> 3" by (simp_all add: f d_def media_record_def)
  have nl: "newline \<in> set d" by (simp add: d_def)
  with r1(1) have "elem_text (csvValue (f ! 1)) = [dquote] @ escapeDoubleQuotes d @ [dquote]"
    by simp
  with arrayToCSVLine_second [OF r1(2)] have a: "arrayToCSVLine f =
             elem_text (csvValue (f ! 0)) @ '','' @ [dquote] @ escapeDoubleQuotes d @ [dquote]
             @ '','' @ js_join '','' (map elem_text (map csvValue (drop 2 f)))"
    by simp
  from assms(2) obtain fs1 fs2 where sp: "files s = fs1 @ f # fs2"
    by (auto dest: split_list)
  have doc: "\<exists>fs1 fs2. files s = fs1 @ f # fs2 \<and>
              (\<forall>names. csv_document names (files s) =
                 csv_document names fs1 @ arrayToCSVLine f
                   @ replicate (length (split_chr comma names)) comma @ [newline]
                   @ concat (map (csv_line (length (split_chr comma names))) fs2))"
    by (intro exI [of _ fs1] exI [of _ fs2]) (simp only: sp csv_document_split simp_thms)
  show ?thesis
  proof (rule exI [of _ v], rule exI [of _ n], rule exI [of _ ow], rule exI [of _ rest],
      rule exI [of _ mt], rule exI [of _ d], intro conjI)
    show "v \<in> set (delivered s)" by (rule v)
    show "n \<in> set (response v)" by (rule n)
    show "(\<exists>fm tree. v = root_visit fm tree \<and> folderName v = []) \<or>
            (\<exists>u\<in>set (delivered s). \<exists>m\<in>set (response u). visits_folder v m)"
      by (rule nm)
    show "owners (node_entry n) = ow # rest" by (rule o)
    show "f = media_record v (node_entry n) ow mt" by (rule f)
    show "d = ''By '' @ displayName ow @ '' in '' @ folderName v @ ''. '' @ [newline]
               @ (case description (node_entry n) of None \<Rightarrow> [] | Some t \<Rightarrow> t)"
      by (rule d_def)
    show "f ! 1 = JStr d" by (rule r1(1))
    show "newline \<in> set d" by (rule nl)
    show "arrayToCSVLine f =
             elem_text (csvValue (f ! 0)) @ '','' @ [dquote] @ escapeDoubleQuotes d @ [dquote]
             @ '','' @ js_join '','' (map elem_text (map csvValue (drop 2 f)))"
      by (rule a)
    show "csv_fields ([dquote] @ escapeDoubleQuotes d @ [dquote])
             = [[dquote] @ escapeDoubleQuotes d @ [dquote]]"
      using wrapped_reads_as_one_field [of d] by (rule conjunct1)
    show "csv_lines ([dquote] @ escapeDoubleQuotes d @ [dquote])
             = [[dquote] @ escapeDoubleQuotes d @ [dquote]]"
      using wrapped_reads_as_one_field [of d] by (rule conjunct2)
    show "\<exists>fs1 fs2. files s = fs1 @ f # fs2 \<and>
              (\<forall>names. csv_document names (files s) =
                 csv_document names fs1 @ arrayToCSVLine f
                   @ replicate (length (split_chr comma names)) comma @ [newline]
                   @ concat (map (csv_line (length (split_chr comma names))) fs2))"
      by (rule doc)
  qed
qed

text \<open>The scenario after both listings have arrived: the second record is the one of
  \<open>clip.mp4\<close> in the folder \<open>A\<close>, with the row emitted for it.\<close>

theorem record_description_witness:
  "files (after scenario_tree [Deliver 0, Resolve 0, Deliver 0]) ! 1 ! 1
     = JStr (''By Ann in A. '' @ [newline]) \<and>
   arrayToCSVLine (files (after scenario_tree [Deliver 0, Resolve 0, Deliver 0]) ! 1) =
     ''clip.mp4,'' @ [dquote] @ ''By Ann in A. '' @ [newline] @ [dquote]
     @ '',,https://drive.google.com/uc?export=download&id=I2,I2,Video,Cat>site>channels>Drive ,Ann@example.org, - A,7''"
proof -
  have r: "session no_table
             [Click scenario_form scenario_tree, Turn (Deliver 0), Turn (Resolve 0), Turn (Deliver 0)]
             page_load
           = Some (after scenario_tree [Deliver 0, Resolve 0, Deliver 0])"
    by (simp add: run_defs ex_defs2)
  have m: "files (after scenario_tree [Deliver 0, Resolve 0, Deliver 0]) ! 1
           \<in> set (files (after scenario_tree [Deliver 0, Resolve 0, Deliver 0]))"
    by (simp add: run_defs ex_defs2)
  have v: "files (after scenario_tree [Deliver 0, Resolve 0, Deliver 0]) ! 1 ! 0 = JStr ''clip.mp4''"
    "files (after scenario_tree [Deliver 0, Resolve 0, Deliver 0]) ! 1 ! 1
       = JStr (''By Ann in A. '' @ [newline])"
    "js_join '',''
       (map elem_text (map csvValue (drop 2 (files (after scenario_tree [Deliver 0, Resolve 0, Deliver 0]) ! 1))))
     = '',https://drive.google.com/uc?export=download&id=I2,I2,Video,Cat>site>channels>Drive ,Ann@example.org, - A,7''"
    by (simp_all add: run_defs ex_defs2)
  from record_description [OF r m] obtain d where
    d: "files (after scenario_tree [Deliver 0, Resolve 0, Deliver 0]) ! 1 ! 1 = JStr d"
      "arrayToCSVLine (files (after scenario_tree [Deliver 0, Resolve 0, Deliver 0]) ! 1) =
         elem_text (csvValue (files (after scenario_tree [Deliver 0, Resolve 0, Deliver 0]) ! 1 ! 0))
         @ '','' @ [dquote] @ escapeDoubleQuotes d @ [dquote] @ '',''
         @ js_join '','' (map elem_text (map csvValue
             (drop 2 (files (after scenario_tree [Deliver 0, Resolve 0, Deliver 0]) ! 1))))"
    by blast
  from d(1) v(2) have "d = ''By Ann in A. '' @ [newline]" by simp
  with d(2) v show ?thesis by (simp add: escapeDoubleQuotes_def)
qed

section \<open>The lines of the document\<close>

text \<open>
  Claim C3, as amended. In the first run on a freshly loaded page, suppose that no
  value of a record contains a double quote without also containing a comma or a
  newline, and that the metadata field names contain neither a double quote nor a
  newline. Then the document handed to \<open>downloadCSV\<close> at the end of the run, with
  \<open>N\<close> records collected, has exactly \<open>N + 1\<close> lines, and every line, the header
  included, has exactly \<open>10 + metadataFieldCount\<close> top-level fields.
\<close>

theorem csv_document_shape:
  assumes "run up es (makeCsv fm tree page_load) = Some s" and "poll k s = Some s'"
    and "runs s = []" and "files s \<noteq> []"
    and "list_all (list_all quote_safe) (files s)"
    and "dquote \<notin> set (metadata_fields fm)" and "newline \<notin> set (metadata_fields fm)"
  shows "\<exists>doc. downloads s' = [(doc, ''bulk_upload.csv'')] \<and>
           doc = csv_document (metadata_fields fm) (files s) \<and>
           length (csv_lines doc) = length (files s) + 1 \<and>
           (\<forall>l\<in>set (csv_lines doc).
              length (csv_fields l) = 10 + length (split_chr comma (metadata_fields fm)))"
proof -
  let ?names = "metadata_fields fm"
  let ?doc = "csv_document ?names (files s)"
  note inv = inv_reachable [OF assms(1)]
  note e = poll_effect [OF assms(2)]
  from inv have len: "\<forall>f\<in>set (files s). length f = 10"
    by (simp add: inv_def inv_globals_def)
  from e have k: "timers s ! k \<in> set (timers s)" by simp
  with inv have fm: "snd (timers s ! k) = fm" by (simp add: inv_def inv_globals_def)
  from k have "timers s \<noteq> []" by auto
  with inv have "downloads s = []" by (simp add: inv_def inv_globals_def)
  with e assms(3,4) fm have d: "downloads s' = [(?doc, ''bulk_upload.csv'')]" by simp
  note lines = csv_document_lines [OF assms(5) len assms(6,7)]
  have "length (csv_fields l) = 10 + length (split_chr comma ?names)"
    if "l \<in> set (csv_lines ?doc)" for l
  proof -
    from that lines consider
      "l = headerLine @ '','' @ js_join '','' (map (\<lambda>f. ''metadataField_'' @ f) (split_chr comma ?names))"
      | f where "f \<in> set (files s)"
          "l = arrayToCSVLine f @ replicate (length (split_chr comma ?names)) comma"
      by auto
    then show ?thesis
    proof cases
      case 1
      with header_body [OF assms(6,7)] show ?thesis
        by (simp add: csv_fields_def length_top_split top_count_plain)
    next
      case 2
      with assms(5) len have "list_all quote_safe f" "length f = 10"
        by (simp_all add: list_all_iff)
      from line_body_closed [OF this] 2(2) show ?thesis
        by (simp add: csv_fields_def length_top_split)
    qed
  qed
  with d lines show ?thesis by simp
qed

text \<open>The scenario on a freshly loaded page: two records and one metadata field.\<close>

theorem csv_document_shape_witness:
  "\<exists>doc. downloads (after scenario_tree [Deliver 0, Resolve 0, Deliver 0, Resolve 0, Poll 0])
           = [(doc, ''bulk_upload.csv'')] \<and>
         length (csv_lines doc) = 3 \<and> length (csv_fields (csv_lines doc ! 0)) = 11 \<and>
         length (csv_fields (csv_lines doc ! 1)) = 11 \<and> length (csv_fields (csv_lines doc ! 2)) = 11"
proof -
  have r: "run no_table [Deliver 0, Resolve 0, Deliver 0, Resolve 0]
             (makeCsv scenario_form scenario_tree page_load)
           = Some (after scenario_tree [Deliver 0, Resolve 0, Deliver 0, Resolve 0])"
    by (simp add: run_defs ex_defs2)
  have p: "poll 0 (after scenario_tree [Deliver 0, Resolve 0, Deliver 0, Resolve 0])
           = Some (after scenario_tree [Deliver 0, Resolve 0, Deliver 0, Resolve 0, Poll 0])"
    by (simp add: run_defs ex_defs2)
  have h: "runs (after scenario_tree [Deliver 0, Resolve 0, Deliver 0, Resolve 0]) = []"
    "files (after scenario_tree [Deliver 0, Resolve 0, Deliver 0, Resolve 0]) \<noteq> []"
    "list_all (list_all quote_safe) (files (after scenario_tree [Deliver 0, Resolve 0, Deliver 0, Resolve 0]))"
    "length (files (after scenario_tree [Deliver 0, Resolve 0, Deliver 0, Resolve 0])) = 2"
    by (simp_all add: run_defs ex_defs2)
  have m: "dquote \<notin> set (metadata_fields scenario_form)"
    "newline \<notin> set (metadata_fields scenario_form)"
    "length (split_chr comma (metadata_fields scenario_form)) = 1"
    by (simp_all add: scenario_form_def)
  from csv_document_shape [OF r p h(1,2,3) m(1,2)] obtain doc where
    doc: "downloads (after scenario_tree [Deliver 0, Resolve 0, Deliver 0, Resolve 0, Poll 0])
           = [(doc, ''bulk_upload.csv'')]" "length (csv_lines doc) = 3"
      "\<forall>l\<in>set (csv_lines doc). length (csv_fields l) = 11"
    using h(4) m(3) by auto
  from doc(2,3) have "length (csv_fields (csv_lines doc ! 0)) = 11"
    "length (csv_fields (csv_lines doc ! 1)) = 11" "length (csv_fields (csv_lines doc ! 2)) = 11"
    by simp_all
  with doc(1,2) show ?thesis by blast
qed

text \<open>
  Claim C3 as stated fails in two ways. On a drive with one image named \<open>"x\<close>, the
  name is emitted as it is, its quote opens a quoted section that swallows the next
  comma, and the document of this one record reads as three lines, the second with a
  single field. And on a page that has run before, \<open>files\<close> keeps the records of that
  run: a second traversal of the drive with one image collects one record, and its
  document has the record of the first traversal as well, three lines in all.
\<close>

theorem csv_document_bare_quote_counterexample:
  "downloads (after quote_tree [Deliver 0, Resolve 0, Poll 0])
     = [(csv_document ''m1'' (files (after quote_tree [Deliver 0, Resolve 0])), ''bulk_upload.csv'')] \<and>
   length (files (after quote_tree [Deliver 0, Resolve 0])) = 1 \<and>
   length (csv_lines (csv_document ''m1'' (files (after quote_tree [Deliver 0, Resolve 0])))) = 3 \<and>
   length (csv_fields (csv_lines (csv_document ''m1'' (files (after quote_tree [Deliver 0, Resolve 0]))) ! 1)) = 1 \<and>
   run no_table [Deliver 0, Resolve 0, Poll 0]
     (makeCsv scenario_form one_image (after one_image [Deliver 0, Resolve 0, Poll 0]))
     = Some (after_second (after one_image [Deliver 0, Resolve 0, Poll 0]) scenario_form one_image
          [Deliver 0, Resolve 0, Poll 0]) \<and>
   length (files (after one_image [Deliver 0, Resolve 0, Poll 0])) = 1 \<and>
   length (files (after_second (after one_image [Deliver 0, Resolve 0, Poll 0]) scenario_form
     one_image [Deliver 0, Resolve 0, Poll 0])) = 2 \<and>
   length (downloads (after_second (after one_image [Deliver 0, Resolve 0, Poll 0]) scenario_form
     one_image [Deliver 0, Resolve 0, Poll 0])) = 2 \<and>
   length (csv_lines (fst (downloads (after_second (after one_image [Deliver 0, Resolve 0, Poll 0])
     scenario_form one_image [Deliver 0, Resolve 0, Poll 0]) ! 1))) = 3"
  by (simp add: run_defs ex_defs2 quote_tree_def csv_document_def csv_line_def arrayToCSVLine_def
      escapeDoubleQuotes_def csv_lines_def csv_fields_def headerLine_def)

end
